theory Spec2Isabelle
  imports Main "HOL-Library.Sublist"
begin

section \<open>Steps (pyworkflow/protocol/protocol.py)\<close>

text \<open>
  The status of a step is held in a \<^verbatim>\<open>String\<close> object; its value is one of the
  constants of the module \<^verbatim>\<open>constants\<close>.

  Modelled from the spec: the module \<^verbatim>\<open>pyworkflow/protocol/constants.py\<close> is
  missing from the sources, so the status constants below take the names of the
  state machine in the specification; only their being pairwise different matters.
\<close>

definition STATUS_SAVED :: string where "STATUS_SAVED = ''saved''"
definition STATUS_RUNNING :: string where "STATUS_RUNNING = ''running''"
definition STATUS_FINISHED :: string where "STATUS_FINISHED = ''finished''"
definition STATUS_FAILED :: string where "STATUS_FAILED = ''failed''"
definition STATUS_ABORTED :: string where "STATUS_ABORTED = ''aborted''"
definition STATUS_INTERACTIVE :: string where "STATUS_INTERACTIVE = ''interactive''"

text \<open>
  The attributes of \<^verbatim>\<open>Step\<close> and \<^verbatim>\<open>FunctionStep\<close>. A scalar object
  (\<^verbatim>\<open>String\<close>, \<^verbatim>\<open>Integer\<close>) without value is \<open>None\<close>. The pickled tuples
  \<^verbatim>\<open>argsStr\<close> and \<^verbatim>\<open>_resultFiles\<close> are kept as the serialized text and as the
  list of paths it encodes. \<^verbatim>\<open>_index\<close> is a plain Python attribute: it is not an
  \<^verbatim>\<open>Object\<close> and so it is not part of the persisted state of the step.
\<close>

record step =
  objId :: "nat option"
  prerequisites :: "nat list"
  status :: "string option"
  initTime :: "string option"
  endTime :: "string option"
  error :: "string option"
  isInteractive :: bool
  resultFiles :: "string list option"
  funcName :: "string option"
  argsStr :: "string option"
  index :: "nat option"

text \<open>
  What a Python call does: it returns, or it raises. \<^verbatim>\<open>except Exception\<close>
  catches the instances of \<^verbatim>\<open>Exception\<close>; \<^verbatim>\<open>KeyboardInterrupt\<close> and
  \<^verbatim>\<open>SystemExit\<close> derive from \<^verbatim>\<open>BaseException\<close> only. Of an instance of
  \<^verbatim>\<open>Exception\<close> the handler of \<^verbatim>\<open>Step.run\<close> takes \<^verbatim>\<open>str(e)\<close>, and that call
  returns a text or raises in its turn (in Python 2 it raises
  \<^verbatim>\<open>UnicodeEncodeError\<close> when the message is a unicode string with a character
  outside ASCII, and whatever a \<^verbatim>\<open>__str__\<close> of the class raises). So an exception
  is: an instance of \<^verbatim>\<open>Exception\<close> with the text that \<^verbatim>\<open>str\<close> gives; an
  instance of \<^verbatim>\<open>Exception\<close> with the exception that \<^verbatim>\<open>str\<close> raises; or an
  exception outside \<^verbatim>\<open>Exception\<close>, with its name. Either way the callee may have
  changed the object before.
\<close>

datatype py_exception =
    PyException string
  | PyUnprintable py_exception
  | PyBaseException string

datatype 'a outcome = Returns 'a | Raises py_exception 'a

definition setRunning :: "string \<Rightarrow> 'a step_scheme \<Rightarrow> 'a step_scheme" where
  "setRunning now s =
     s\<lparr>initTime := Some now, endTime := None, status := Some STATUS_RUNNING, error := None\<rparr>"

definition setFailed :: "string \<Rightarrow> 'a step_scheme \<Rightarrow> 'a step_scheme" where
  "setFailed msg s = s\<lparr>error := Some msg, status := Some STATUS_FAILED\<rparr>"

definition setAborted :: "string \<Rightarrow> 'a step_scheme \<Rightarrow> 'a step_scheme" where
  "setAborted now s =
     s\<lparr>endTime := Some now, error := Some ''Aborted by user.'', status := Some STATUS_ABORTED\<rparr>"

definition getStatus :: "'a step_scheme \<Rightarrow> string" where
  "getStatus s = (case status s of None \<Rightarrow> ''new'' | Some v \<Rightarrow> v)"


definition isFinished :: "'a step_scheme \<Rightarrow> bool" where
  "isFinished s = (getStatus s = STATUS_FINISHED)"

text \<open>
  \<^verbatim>\<open>Step.run\<close>. The body \<^verbatim>\<open>_run\<close> is overridden by the subclasses, so it is a
  parameter: it gets the step after \<^verbatim>\<open>setRunning\<close>. The two readings of the clock
  are parameters too. The result is the step after the \<^verbatim>\<open>finally\<close> clause, and
  the exception that leaves \<^verbatim>\<open>run\<close>, if any. In the handler \<^verbatim>\<open>str(e)\<close> is
  evaluated before \<^verbatim>\<open>setFailed\<close> is called: when it raises, \<^verbatim>\<open>setFailed\<close> is
  not reached and the new exception leaves \<^verbatim>\<open>run\<close>, after the \<^verbatim>\<open>finally\<close>
  clause.
\<close>

definition run ::
  "('a step_scheme \<Rightarrow> 'a step_scheme outcome) \<Rightarrow> string \<Rightarrow> string \<Rightarrow> 'a step_scheme
     \<Rightarrow> 'a step_scheme \<times> py_exception option" where
  "run body now1 now2 s =
     (case body (setRunning now1 s) of
        Returns s' \<Rightarrow>
          ((if status s' = Some STATUS_RUNNING
            then s'\<lparr>status := Some (if isInteractive s' then STATUS_INTERACTIVE
                                     else STATUS_FINISHED)\<rparr>
            else s')\<lparr>endTime := Some now2\<rparr>, None)
      | Raises (PyException msg) s' \<Rightarrow> ((setFailed msg s')\<lparr>endTime := Some now2\<rparr>, None)
      | Raises (PyUnprintable e) s' \<Rightarrow> (s'\<lparr>endTime := Some now2\<rparr>, Some e)
      | Raises (PyBaseException e) s' \<Rightarrow> (s'\<lparr>endTime := Some now2\<rparr>, Some (PyBaseException e)))"

subsection \<open>Function steps\<close>

text \<open>
  \<^verbatim>\<open>FunctionStep.__init__\<close>: \<^verbatim>\<open>Step.__init__\<close> leaves every scalar without a
  value and the prerequisites empty; the name of the function and the pickled
  argument tuple are stored, and \<^verbatim>\<open>isInteractive\<close> is taken from the keyword
  arguments (\<open>False\<close> when it is not given). The second argument is
  \<^verbatim>\<open>pickle.dumps(funcArgs)\<close>.
\<close>

definition FunctionStep :: "string \<Rightarrow> string \<Rightarrow> bool option \<Rightarrow> step" where
  "FunctionStep name pickledArgs interactive =
     \<lparr>objId = None, prerequisites = [], status = None, initTime = None, endTime = None,
      error = None,
      isInteractive = (case interactive of None \<Rightarrow> False | Some b \<Rightarrow> b),
      resultFiles = None, funcName = Some name, argsStr = Some pickledArgs, index = None\<rparr>"

text \<open>\<^verbatim>\<open>FunctionStep.__eq__\<close> and \<^verbatim>\<open>__ne__\<close>: two \<^verbatim>\<open>String\<close> objects are equal
  when their values are.\<close>

definition step_eq :: "step \<Rightarrow> step \<Rightarrow> bool" where
  "step_eq self other = (funcName self = funcName other \<and> argsStr self = argsStr other)"

definition step_ne :: "step \<Rightarrow> step \<Rightarrow> bool" where
  "step_ne self other = (\<not> step_eq self other)"

text \<open>
  Modelled from the spec: \<^verbatim>\<open>missingPaths\<close> of \<^verbatim>\<open>pyworkflow/utils/path.py\<close> is
  missing from the sources; it is the list of the given paths that do not exist.
  The file system is the set of the paths that exist.
\<close>

definition missingPaths :: "string set \<Rightarrow> string list \<Rightarrow> string list" where
  "missingPaths fs paths = filter (\<lambda>p. p \<notin> fs) paths"

text \<open>\<^verbatim>\<open>FunctionStep._postconditions\<close>.\<close>

definition postconditions :: "string set \<Rightarrow> step \<Rightarrow> bool" where
  "postconditions fs s =
     (case resultFiles s of
        None \<Rightarrow> True
      | Some filePaths \<Rightarrow> length (missingPaths fs filePaths) = 0)"

text \<open>
  Modelled from the spec: \<^verbatim>\<open>Object.copy\<close> of \<^verbatim>\<open>pyworkflow/object.py\<close> is missing
  from the sources. It copies the persisted state of the other object onto this
  one: the object id and every attribute that is an \<^verbatim>\<open>Object\<close>. The plain
  attribute \<^verbatim>\<open>_index\<close> of the receiver is kept.
\<close>

definition copy :: "step \<Rightarrow> step \<Rightarrow> step" where
  "copy self other = other\<lparr>index := index self\<rparr>"

section \<open>Protocols\<close>

text \<open>
  Modelled from the spec: the run modes are constants of the missing module
  \<^verbatim>\<open>constants.py\<close>; only their being different matters.
\<close>

definition MODE_RESUME :: int where "MODE_RESUME = 0"
definition MODE_RESTART :: int where "MODE_RESTART = 1"

text \<open>
  What the mapper holds of a protocol: the attributes of the protocol that are
  objects. \<^verbatim>\<open>_originalRunMode\<close>, \<^verbatim>\<open>lastStatus\<close> and the list \<^verbatim>\<open>_steps\<close> are plain
  Python attributes and are not stored.
\<close>

record stored =
  st_status :: "string option"
  st_initTime :: "string option"
  st_endTime :: "string option"
  st_error :: "string option"
  st_isInteractive :: bool
  st_runMode :: int
  st_stepsDone :: nat
  st_numberOfSteps :: nat

text \<open>
  A protocol is a step with more attributes. \<open>mapper\<close> is \<open>None\<close> when the
  protocol has no mapper, and otherwise what the database of the mapper holds of
  this protocol. \<open>stepsFile\<close> is the content of the file \<^verbatim>\<open>steps.sqlite\<close> of the
  protocol, \<open>None\<close> when the file does not exist. \<open>stepsExecutor\<close> tells whether
  \<^verbatim>\<open>_stepsExecutor\<close> is set.
\<close>

record protocol = step +
  steps :: "step list"
  prevSteps :: "step list"
  runMode :: int
  originalRunMode :: "int option"
  stepsDone :: nat
  numberOfSteps :: nat
  lastStatus :: "string option"
  mapper :: "stored option"
  stepsFile :: "step list option"
  stepsExecutor :: bool

subsection \<open>Inserting steps\<close>

text \<open>
  \<^verbatim>\<open>Protocol.__insertStep\<close>. The second argument is the keyword argument
  \<^verbatim>\<open>prerequisites\<close>, \<open>None\<close> when it is not given. The step object is the one
  appended to the list, so the index set after the \<^verbatim>\<open>append\<close> shows in the list.
\<close>

definition insertStep :: "step \<Rightarrow> nat list option \<Rightarrow> protocol \<Rightarrow> nat \<times> protocol" where
  "insertStep st prereqs p =
     (let st1 = (case prereqs of
                   None \<Rightarrow>
                     if length (steps p) \<noteq> 0
                     then st\<lparr>prerequisites := prerequisites st @ [length (steps p)]\<rparr>
                     else st
                 | Some is \<Rightarrow> st\<lparr>prerequisites := prerequisites st @ is\<rparr>);
          p1 = p\<lparr>steps := steps p @ [st1]\<rparr>;
          n = length (steps p1);
          p2 = p1\<lparr>steps := (steps p1)[n - 1 := st1\<lparr>index := Some n\<rparr>]\<rparr>
      in (n, p2))"

text \<open>What \<^verbatim>\<open>getattr(self, funcName, None)\<close> finds in the protocol.\<close>

datatype member = Missing | NotCallable | Callable

text \<open>The keyword arguments that \<^verbatim>\<open>_insertFunctionStep\<close> passes on.\<close>

record kwargs =
  kw_prerequisites :: "nat list option"
  kw_isInteractive :: "bool option"

definition insertFunctionStep ::
  "(string \<Rightarrow> member) \<Rightarrow> string \<Rightarrow> string \<Rightarrow> kwargs \<Rightarrow> protocol \<Rightarrow> string + nat \<times> protocol"
where
  "insertFunctionStep members name pickledArgs kw p =
     (case members name of
        Missing \<Rightarrow>
          Inl (''Protocol._insertFunctionStep: '' @ [CHR 0x27] @ name @ [CHR 0x27]
               @ '' function is not member of the protocol'')
      | NotCallable \<Rightarrow>
          Inl (''Protocol._insertFunctionStep: '' @ [CHR 0x27] @ name @ [CHR 0x27]
               @ '' is not callable'')
      | Callable \<Rightarrow>
          Inr (insertStep (FunctionStep name pickledArgs (kw_isInteractive kw))
                 (kw_prerequisites kw) p))"

text \<open>A sequence of insertions, as \<^verbatim>\<open>_insertAllSteps\<close> of a subclass makes them: the
  indexes returned, in order, and the protocol after the last one. The first
  exception ends the sequence; the steps inserted before it stay in the list, so
  the protocol as it is then comes with the message.\<close>

fun insertFunctionSteps ::
  "(string \<Rightarrow> member) \<Rightarrow> (string \<times> string \<times> kwargs) list \<Rightarrow> protocol
     \<Rightarrow> (string \<times> protocol) + (nat list \<times> protocol)" where
  "insertFunctionSteps members [] p = Inr ([], p)"
| "insertFunctionSteps members ((name, pickledArgs, kw) # calls) p =
     (case insertFunctionStep members name pickledArgs kw p of
        Inl e \<Rightarrow> Inl (e, p)
      | Inr (i, p') \<Rightarrow>
          (case insertFunctionSteps members calls p' of
             Inl e \<Rightarrow> Inl e
           | Inr (is, p'') \<Rightarrow> Inr (i # is, p'')))"

subsection \<open>The resume point\<close>

text \<open>\<^verbatim>\<open>Protocol.loadSteps\<close>: the clones of the steps of the steps file, or the
  empty list when the file does not exist.\<close>

definition loadSteps :: "protocol \<Rightarrow> step list" where
  "loadSteps p = (case stepsFile p of None \<Rightarrow> [] | Some stored_steps \<Rightarrow> stored_steps)"

text \<open>
  The loop of \<^verbatim>\<open>Protocol.__findStartingStep\<close> over \<^verbatim>\<open>range(n)\<close>: \<open>Some i\<close> when
  the loop returns \<open>i\<close>, \<open>None\<close> when it runs to its end; and the new steps,
  onto which the old ones were copied.
\<close>

fun findStartingStep_loop ::
  "string set \<Rightarrow> nat list \<Rightarrow> step list \<Rightarrow> step list \<Rightarrow> nat option \<times> step list" where
  "findStartingStep_loop fs [] new old = (None, new)"
| "findStartingStep_loop fs (i # is) new old =
     (let newStep = new ! i; oldStep = old ! i in
      if \<not> isFinished oldStep \<or> step_ne newStep oldStep \<or> \<not> postconditions fs oldStep
      then (Some i, new)
      else findStartingStep_loop fs is (new[i := copy newStep oldStep]) old)"

definition findStartingStep :: "string set \<Rightarrow> protocol \<Rightarrow> nat \<times> protocol" where
  "findStartingStep fs p =
     (if runMode p = MODE_RESTART then (0, p\<lparr>prevSteps := []\<rparr>)
      else
        let p1 = p\<lparr>prevSteps := loadSteps p\<rparr>;
            n = min (length (steps p1)) (length (prevSteps p1))
        in case findStartingStep_loop fs [0..<n] (steps p1) (prevSteps p1) of
             (Some i, new) \<Rightarrow> (i, p1\<lparr>steps := new\<rparr>)
           | (None, new) \<Rightarrow> (n, p1\<lparr>steps := new\<rparr>))"

subsection \<open>Storing the protocol and its steps\<close>











subsection \<open>Running the steps\<close>






text \<open>\<^verbatim>\<open>Protocol.__init__\<close>, as far as the attributes above go: no steps yet. The
  arguments are the mapper and the run mode.\<close>

definition Protocol :: "stored option \<Rightarrow> int \<Rightarrow> protocol" where
  "Protocol m mode =
     \<lparr>objId = None, prerequisites = [], status = None, initTime = None, endTime = None,
      error = None, isInteractive = False, resultFiles = None, funcName = None,
      argsStr = None, index = None,
      steps = [], prevSteps = [], runMode = mode, originalRunMode = None, stepsDone = 0,
      numberOfSteps = 0, lastStatus = None, mapper = m, stepsFile = None,
      stepsExecutor = False\<rparr>"

subsection \<open>Example data\<close>

text \<open>A protocol that was stored in restart mode, with a mapper and an executor;
  steps whose body returns at once; and the insertions of a small workflow.\<close>

definition example_db :: stored where
  "example_db = \<lparr>st_status = Some STATUS_SAVED, st_initTime = None, st_endTime = None,
      st_error = None, st_isInteractive = False, st_runMode = MODE_RESTART,
      st_stepsDone = 0, st_numberOfSteps = 0\<rparr>"

definition example_protocol :: protocol where
  "example_protocol = (Protocol (Some example_db) MODE_RESTART)\<lparr>stepsExecutor := True\<rparr>"


definition example_calls :: "(string \<times> string \<times> kwargs) list" where
  "example_calls =
     [(''convertInputStep'', ''(t.)'', \<lparr>kw_prerequisites = None, kw_isInteractive = None\<rparr>),
      (''classifyStep'', ''(I5 t.)'', \<lparr>kw_prerequisites = None, kw_isInteractive = None\<rparr>),
      (''createOutputStep'', ''(t.)'', \<lparr>kw_prerequisites = Some [1], kw_isInteractive = None\<rparr>)]"

text \<open>The three steps of a new run, and what an earlier run left in the steps file:
  all three finished, the second one with another argument.\<close>

definition example_steps :: "step list" where
  "example_steps =
     [(FunctionStep ''convertInputStep'' ''(t.)'' None)\<lparr>index := Some 1\<rparr>,
      (FunctionStep ''classifyStep'' ''(I5 t.)'' None)\<lparr>index := Some 2, prerequisites := [1]\<rparr>,
      (FunctionStep ''createOutputStep'' ''(t.)'' None)\<lparr>index := Some 3, prerequisites := [2]\<rparr>]"

definition example_finished :: "step \<Rightarrow> step" where
  "example_finished s =
     s\<lparr>status := Some STATUS_FINISHED, initTime := Some ''t1'', endTime := Some ''t2'',
       index := None\<rparr>"

definition example_prevSteps :: "step list" where
  "example_prevSteps =
     [example_finished (FunctionStep ''convertInputStep'' ''(t.)'' None)\<lparr>objId := Some 1\<rparr>,
      example_finished (FunctionStep ''classifyStep'' ''(I4 t.)'' None)
        \<lparr>objId := Some 2, prerequisites := [1]\<rparr>,
      example_finished (FunctionStep ''createOutputStep'' ''(t.)'' None)
        \<lparr>objId := Some 3, prerequisites := [2]\<rparr>]"

definition example_unchanged :: "step list" where
  "example_unchanged = map (\<lambda>s. example_finished s) example_steps"

subsection \<open>Notions used in the proofs\<close>

text \<open>The three conditions under which \<^verbatim>\<open>__findStartingStep\<close> keeps a step.\<close>

definition unchanged :: "string set \<Rightarrow> step \<Rightarrow> step \<Rightarrow> bool" where
  "unchanged fs newStep oldStep =
     (isFinished oldStep \<and> step_eq newStep oldStep \<and> postconditions fs oldStep)"




section \<open>The graph mapper (pyworkflow/mapper/sqlite.py)\<close>

subsection \<open>Objects\<close>

text \<open>
  Modelled from the spec: the class \<^verbatim>\<open>Object\<close> of \<^verbatim>\<open>pyworkflow/object.py\<close> is missing
  from the sources. An object has an id (absent before the first insert), a name,
  the id of its parent, a label, a comment and a value; a pointer is an object
  whose value is its referent. Objects are mutable and shared, so they live in a
  heap and are named by their address. The value of an object is \<^verbatim>\<open>None\<close>, a
  scalar (kept as its text) or another object. \<open>attributes\<close> is what
  \<^verbatim>\<open>getAttributesToStore\<close> yields: the keys and the attribute objects, in order.
\<close>

type_synonym addr = nat

datatype pyvalue = VNone | VStr string | VObj addr

record pobject =
  objId :: "nat option"
  objName :: string
  objParentId :: "nat option"
  objLabel :: string
  objComment :: string
  className :: string
  objIsPointer :: bool
  objValue :: pyvalue
  attributes :: "(string \<times> addr) list"

text \<open>The exceptions of the mapper. \<open>InterfaceError\<close> and \<open>OperationalError\<close> are
  the ones of \<^verbatim>\<open>sqlite3\<close>: a value that cannot be bound, and a statement that SQLite
  refuses. \<open>RecursionLimit\<close> is the \<^verbatim>\<open>RuntimeError\<close> of the interpreter when the
  calls nest deeper than its limit; \<open>Diverges\<close> stands for a loop that does not
  end.\<close>

datatype error =
  CircularReference | ParentNotFound | ValueError | IndexError | AttributeError
  | InterfaceError | OperationalError | RecursionLimit | Diverges

subsection \<open>Strings\<close>

text \<open>\<^verbatim>\<open>str\<close> of a natural number, and \<^verbatim>\<open>strId\<close>, which is \<^verbatim>\<open>str(self._objId)\<close>.\<close>

function str_nat :: "nat \<Rightarrow> string" where
  "str_nat n =
     (if n < 10 then [''0123456789'' ! n]
      else str_nat (n div 10) @ [''0123456789'' ! (n mod 10)])"
  by pat_completeness auto
termination
  by (relation "measure id") auto

declare str_nat.simps [simp del]

definition strId :: "nat option \<Rightarrow> string" where
  "strId i = (case i of None \<Rightarrow> ''None'' | Some n \<Rightarrow> str_nat n)"

text \<open>\<^verbatim>\<open>int\<close> of a string of digits; \<open>None\<close> is the \<^verbatim>\<open>ValueError\<close>. (A sign and blanks
  around the number, which \<^verbatim>\<open>int\<close> accepts too, are not modelled: the names that
  the mapper builds hold none.)\<close>

definition digit_val :: "char \<Rightarrow> nat option" where
  "digit_val = map_of (zip ''0123456789'' [0, 1, 2, 3, 4, 5, 6, 7, 8, 9])"

fun parse_digits :: "nat \<Rightarrow> string \<Rightarrow> nat option" where
  "parse_digits acc [] = Some acc"
| "parse_digits acc (c # cs) =
     (case digit_val c of None \<Rightarrow> None | Some d \<Rightarrow> parse_digits (10 * acc + d) cs)"

definition py_int :: "string \<Rightarrow> nat option" where
  "py_int s = (if s = [] then None else parse_digits 0 s)"

text \<open>\<^verbatim>\<open>s.split('.')\<close>.\<close>

fun split_dot :: "string \<Rightarrow> string list" where
  "split_dot [] = [[]]"
| "split_dot (c # cs) =
     (if c = CHR ''.'' then [] # split_dot cs
      else (case split_dot cs of [] \<Rightarrow> [[c]] | p # ps \<Rightarrow> (c # p) # ps))"

text \<open>
  Modelled from the spec: \<^verbatim>\<open>joinExt\<close> and \<^verbatim>\<open>replaceExt\<close> of
  \<^verbatim>\<open>pyworkflow/utils/path.py\<close> are missing from the sources. The name of a child
  is the prefix, a dot and the key; \<^verbatim>\<open>replaceExt\<close> puts the new extension in the
  place of what follows the last dot.
\<close>

definition joinExt :: "string \<Rightarrow> string \<Rightarrow> string" where
  "joinExt a b = a @ ''.'' @ b"

definition removeExt :: "string \<Rightarrow> string" where
  "removeExt s =
     (if CHR ''.'' \<in> set s then rev (tl (dropWhile (\<lambda>c. c \<noteq> CHR ''.'') (rev s))) else s)"

definition replaceExt :: "string \<Rightarrow> string \<Rightarrow> string" where
  "replaceExt filename newExt = removeExt filename @ ''.'' @ newExt"

text \<open>The operator \<^verbatim>\<open>LIKE\<close> of SQLite: \<^verbatim>\<open>%\<close> matches any text, \<^verbatim>\<open>_\<close> any one
  character, and the letters of ASCII match without regard to case.\<close>

definition ascii_upper :: "char \<Rightarrow> char" where
  "ascii_upper c =
     (case map_of (zip ''abcdefghijklmnopqrstuvwxyz'' ''ABCDEFGHIJKLMNOPQRSTUVWXYZ'') c of
        None \<Rightarrow> c | Some u \<Rightarrow> u)"

fun like :: "string \<Rightarrow> string \<Rightarrow> bool" where
  "like [] [] = True"
| "like [] (c # cs) = False"
| "like (p # ps) [] = (p = CHR ''%'' \<and> like ps [])"
| "like (p # ps) (c # cs) =
     (if p = CHR ''%'' then like ps (c # cs) \<or> like (p # ps) cs
      else if p = CHR ''_'' then like ps cs
      else ascii_upper p = ascii_upper c \<and> like ps cs)"

subsection \<open>The database\<close>

text \<open>The table \<^verbatim>\<open>Objects\<close> of \<^verbatim>\<open>SqliteDb\<close>. The column \<^verbatim>\<open>id\<close> is
  \<^verbatim>\<open>AUTOINCREMENT\<close>: a new row gets an id larger than every id the table ever
  held, which \<open>lastId\<close> remembers.\<close>

record row =
  r_id :: nat
  r_parent_id :: "nat option"
  r_name :: string
  r_classname :: string
  r_value :: "string option"
  r_label :: "string option"
  r_comment :: "string option"

record database =
  rows :: "row list"
  lastId :: nat

definition insertObject ::
  "string \<Rightarrow> string \<Rightarrow> string option \<Rightarrow> nat option \<Rightarrow> string \<Rightarrow> string \<Rightarrow> database
     \<Rightarrow> nat \<times> database" where
  "insertObject nm classname val parent lbl cmt d =
     (let i = Suc (lastId d) in
      (i, d\<lparr>rows := rows d @
               [\<lparr>r_id = i, r_parent_id = parent, r_name = nm, r_classname = classname,
                 r_value = val, r_label = Some lbl, r_comment = Some cmt\<rparr>],
            lastId := i\<rparr>))"

text \<open>\<^verbatim>\<open>UPDATE ... WHERE id=?\<close>: no row has the id \<^verbatim>\<open>NULL\<close>.\<close>

definition updateObject ::
  "nat option \<Rightarrow> string \<Rightarrow> string \<Rightarrow> string option \<Rightarrow> nat option \<Rightarrow> string \<Rightarrow> string
     \<Rightarrow> database \<Rightarrow> database" where
  "updateObject i nm classname val parent lbl cmt d =
     d\<lparr>rows := map (\<lambda>r. if Some (r_id r) = i
                         then r\<lparr>r_parent_id := parent, r_name := nm, r_classname := classname,
                                r_value := val, r_label := Some lbl, r_comment := Some cmt\<rparr>
                         else r) (rows d)\<rparr>"

definition selectObjectById :: "nat \<Rightarrow> database \<Rightarrow> row option" where
  "selectObjectById i d = find (\<lambda>r. r_id r = i) (rows d)"

definition selectObjectsByAncestor :: "string \<Rightarrow> database \<Rightarrow> row list" where
  "selectObjectsByAncestor ancestor_namePrefix d =
     sort_key r_id (filter (\<lambda>r. like (ancestor_namePrefix @ ''.%'') (r_name r)) (rows d))"

subsection \<open>The mapper and the heap\<close>

text \<open>
  The state: the heap of the objects, the database, and the three attributes of the
  mapper. The two dictionaries are association lists: an assignment puts the pair
  in front, and a key is looked up from the front. \<open>visited\<close> is not in the code: it lists the ids on which \<^verbatim>\<open>__updateTo\<close>
  was entered and went on in the current pass, in order. Nothing reads it; it is
  there for the statement of the properties of the walk.
\<close>

record state =
  heap :: "pobject list"
  database :: database
  objDict :: "(nat \<times> addr) list"
  updateDict :: "(nat option \<times> addr) list"
  updatePendingPointers :: "addr list"
  visited :: "nat option list"

definition initObjDict :: "state \<Rightarrow> state" where
  "initObjDict s = s\<lparr>objDict := []\<rparr>"

definition initUpdateDict :: "state \<Rightarrow> state" where
  "initUpdateDict s = s\<lparr>updateDict := [], updatePendingPointers := [], visited := []\<rparr>"

definition hasObjId :: "pobject \<Rightarrow> bool" where
  "hasObjId obj = (objId obj \<noteq> None)"

text \<open>\<^verbatim>\<open>SqliteMapper.__getObjectValue\<close>. A value that is an object cannot be bound to
  a column, and a pointer to something that is no object has no \<^verbatim>\<open>hasObjId\<close>.\<close>

definition getObjectValue :: "addr \<Rightarrow> state \<Rightarrow> error + string option \<times> state" where
  "getObjectValue a s =
     (let obj = heap s ! a; val = objValue obj in
      if objIsPointer obj \<and> val \<noteq> VNone
      then (case val of
              VObj r \<Rightarrow>
                if hasObjId (heap s ! r) then Inr (Some (strId (objId (heap s ! r))), s)
                else Inr (Some ''Pending update'',
                          s\<lparr>updatePendingPointers := updatePendingPointers s @ [a]\<rparr>)
            | _ \<Rightarrow> Inl AttributeError)
      else (case val of
              VNone \<Rightarrow> Inr (None, s)
            | VStr t \<Rightarrow> Inr (Some t, s)
            | VObj r \<Rightarrow> Inl InterfaceError))"

text \<open>\<^verbatim>\<open>SqliteMapper.__getNamePrefix\<close>.\<close>

definition getNamePrefix :: "pobject \<Rightarrow> string" where
  "getNamePrefix obj =
     (if length (objName obj) > 0 \<and> CHR ''.'' \<in> set (objName obj)
      then replaceExt (objName obj) (strId (objId obj))
      else strId (objId obj))"

subsection \<open>Insert\<close>

text \<open>
  The first statements of \<^verbatim>\<open>SqliteMapper.__insert\<close>: the row of the object is
  written with the value that \<^verbatim>\<open>__getObjectValue\<close> gives, the object gets the id
  of the row, and the prefix of the names of its children is made. The result is
  that prefix and the new state.
\<close>

definition insertRow :: "addr \<Rightarrow> string option \<Rightarrow> state \<Rightarrow> error + string \<times> state" where
  "insertRow a namePrefix s =
     (case getObjectValue a s of
        Inl e \<Rightarrow> Inl e
      | Inr (val, s1) \<Rightarrow>
          let obj = heap s1 ! a;
              (i, d) = insertObject (objName obj) (className obj) val (objParentId obj)
                         (objLabel obj) (objComment obj) (database s1);
              s2 = s1\<lparr>database := d, heap := (heap s1)[a := obj\<lparr>objId := Some i\<rparr>]\<rparr>;
              sid = strId (objId (heap s2 ! a))
          in Inr (case namePrefix of None \<Rightarrow> sid | Some pre \<Rightarrow> joinExt pre sid, s2))"

text \<open>The two assignments of \<^verbatim>\<open>insertChild\<close>: the name and the parent of the
  attribute.\<close>

definition setChild :: "string \<Rightarrow> string \<Rightarrow> addr \<Rightarrow> addr \<Rightarrow> state \<Rightarrow> state" where
  "setChild namePrefix key a attr s =
     (let s1 = s\<lparr>heap := (heap s)[attr := (heap s ! attr)\<lparr>objName := joinExt namePrefix key\<rparr>]\<rparr>
      in s1\<lparr>heap := (heap s1)[attr := (heap s1 ! attr)\<lparr>objParentId := objId (heap s1 ! a)\<rparr>]\<rparr>)"

text \<open>
  \<^verbatim>\<open>SqliteMapper.__insert\<close>, and the loop of \<^verbatim>\<open>insertChilds\<close> with the body of
  \<^verbatim>\<open>insertChild\<close>. The first argument bounds the nesting of the calls of
  \<^verbatim>\<open>__insert\<close>, as the recursion limit of the interpreter does.
\<close>

fun insert_rec :: "nat \<Rightarrow> addr \<Rightarrow> string option \<Rightarrow> state \<Rightarrow> error + state"
and insertChilds :: "nat \<Rightarrow> addr \<Rightarrow> string \<Rightarrow> (string \<times> addr) list \<Rightarrow> state \<Rightarrow> error + state"
where
  "insert_rec 0 a namePrefix s = Inl RecursionLimit"
| "insert_rec (Suc n) a namePrefix s =
     (case insertRow a namePrefix s of
        Inl e \<Rightarrow> Inl e
      | Inr (childPrefix, s1) \<Rightarrow> insertChilds n a childPrefix (attributes (heap s1 ! a)) s1)"
| "insertChilds n a namePrefix [] s = Inr s"
| "insertChilds n a namePrefix ((key, attr) # rest) s =
     (case insert_rec n attr (Some namePrefix) (setChild namePrefix key a attr s) of
        Inl e \<Rightarrow> Inl e
      | Inr s1 \<Rightarrow> insertChilds n a namePrefix rest s1)"

text \<open>\<^verbatim>\<open>SqliteMapper.insert\<close>.\<close>

definition insert_obj :: "nat \<Rightarrow> addr \<Rightarrow> state \<Rightarrow> error + state" where
  "insert_obj limit a s = insert_rec limit a None s"

subsection \<open>Update\<close>

text \<open>The first statement of \<^verbatim>\<open>__updateTo\<close>: the row of the object is rewritten.\<close>

definition updateRow :: "addr \<Rightarrow> state \<Rightarrow> error + state" where
  "updateRow a s =
     (case getObjectValue a s of
        Inl e \<Rightarrow> Inl e
      | Inr (val, s1) \<Rightarrow>
          let obj = heap s1 ! a in
          Inr (s1\<lparr>database := updateObject (objId obj) (objName obj) (className obj) val
                                  (objParentId obj) (objLabel obj) (objComment obj)
                                  (database s1)\<rparr>))"

text \<open>The assignments of \<^verbatim>\<open>__updateTo\<close> for an attribute without id: its parent,
  and its name under the prefix of the object. The result is that prefix and the
  new state.\<close>

definition adoptChild :: "string \<Rightarrow> addr \<Rightarrow> addr \<Rightarrow> state \<Rightarrow> string \<times> state" where
  "adoptChild key a attr s =
     (let s1 = s\<lparr>heap := (heap s)[attr := (heap s ! attr)\<lparr>objParentId := objId (heap s ! a)\<rparr>]\<rparr>;
          namePrefix = getNamePrefix (heap s1 ! a)
      in (namePrefix,
          s1\<lparr>heap := (heap s1)[attr := (heap s1 ! attr)\<lparr>objName := joinExt namePrefix key\<rparr>]\<rparr>))"

text \<open>\<^verbatim>\<open>SqliteMapper.__updateTo\<close> and its loop over the attributes. The parameter
  \<^verbatim>\<open>level\<close> of the code is not used by it.\<close>

fun updateTo_rec :: "nat \<Rightarrow> addr \<Rightarrow> state \<Rightarrow> error + state"
and updateTo_attrs :: "nat \<Rightarrow> addr \<Rightarrow> (string \<times> addr) list \<Rightarrow> state \<Rightarrow> error + state"
where
  "updateTo_rec 0 a s = Inl RecursionLimit"
| "updateTo_rec (Suc n) a s =
     (case updateRow a s of
        Inl e \<Rightarrow> Inl e
      | Inr s1 \<Rightarrow>
          if map_of (updateDict s1) (objId (heap s1 ! a)) \<noteq> None then Inl CircularReference
          else updateTo_attrs n a (attributes (heap s1 ! a))
                 (s1\<lparr>updateDict := (objId (heap s1 ! a), a) # updateDict s1,
                     visited := visited s1 @ [objId (heap s1 ! a)]\<rparr>))"
| "updateTo_attrs n a [] s = Inr s"
| "updateTo_attrs n a ((key, attr) # rest) s =
     (case (if objId (heap s ! attr) = None
            then insert_rec n attr (Some (fst (adoptChild key a attr s)))
                   (snd (adoptChild key a attr s))
            else updateTo_rec n attr s) of
        Inl e \<Rightarrow> Inl e
      | Inr s1 \<Rightarrow> updateTo_attrs n a rest s1)"

text \<open>
  The loop of \<^verbatim>\<open>updateTo\<close> over \<^verbatim>\<open>self.updatePendingPointers\<close>. A Python loop over
  a list goes on while its position is inside the list, also when the list grows
  meanwhile; the first argument bounds the number of rounds. The value that is
  written is the one of \<^verbatim>\<open>obj\<close>, the argument of \<^verbatim>\<open>updateTo\<close>, as in the code.
\<close>

fun updatePending :: "nat \<Rightarrow> nat \<Rightarrow> addr \<Rightarrow> state \<Rightarrow> error + state" where
  "updatePending 0 i root s =
     (if i < length (updatePendingPointers s) then Inl Diverges else Inr s)"
| "updatePending (Suc k) i root s =
     (if i < length (updatePendingPointers s)
      then
        let ptr = heap s ! (updatePendingPointers s ! i) in
        (case getObjectValue root s of
           Inl e \<Rightarrow> Inl e
         | Inr (val, s1) \<Rightarrow>
             updatePending k (Suc i) root
               (s1\<lparr>database := updateObject (objId ptr) (objName ptr) (className ptr)
                                  val (objParentId ptr) (objLabel ptr) (objComment ptr)
                                  (database s1)\<rparr>))
      else Inr s)"

text \<open>\<^verbatim>\<open>SqliteMapper.updateTo\<close>.\<close>

definition updateTo :: "nat \<Rightarrow> nat \<Rightarrow> addr \<Rightarrow> state \<Rightarrow> error + state" where
  "updateTo limit rounds a s =
     (case updateTo_rec limit a (initUpdateDict s) of
        Inl e \<Rightarrow> Inl e
      | Inr s1 \<Rightarrow> updatePending rounds 0 a s1)"

subsection \<open>Select\<close>

text \<open>
  Modelled from the spec: \<^verbatim>\<open>_buildObject\<close> and \<^verbatim>\<open>_getStrValue\<close> of the class
  \<^verbatim>\<open>Mapper\<close> and the class registry are missing from the sources.
  \<^verbatim>\<open>_buildObject\<close> makes a new object of the class with the stored name; here it
  has no id, no value and no attributes yet, and it is a pointer when its class is
  \<^verbatim>\<open>Pointer\<close>. \<^verbatim>\<open>_getStrValue\<close> turns \<^verbatim>\<open>None\<close> into the empty string.
\<close>

definition buildObject :: "string \<Rightarrow> state \<Rightarrow> addr \<times> state" where
  "buildObject classname s =
     (length (heap s),
      s\<lparr>heap := heap s @
           [\<lparr>objId = None, objName = [], objParentId = None, objLabel = [],
             objComment = [], className = classname,
             objIsPointer = (classname = ''Pointer''), objValue = VNone,
             attributes = []\<rparr>]\<rparr>)"

definition getStrValue :: "string option \<Rightarrow> string" where
  "getStrValue v = (case v of None \<Rightarrow> [] | Some t \<Rightarrow> t)"

text \<open>
  \<^verbatim>\<open>SqliteMapper.selectById\<close>, \<^verbatim>\<open>fillObject\<close>, the loop of \<^verbatim>\<open>fillObject\<close> over
  the rows of the descendants, and \<^verbatim>\<open>fillObjectWithRow\<close>. The first argument
  bounds the nesting of the calls of \<^verbatim>\<open>selectById\<close>. \<^verbatim>\<open>getattr\<close> is looked up
  among the attributes that are objects.
\<close>

fun selectById :: "nat \<Rightarrow> nat \<Rightarrow> state \<Rightarrow> error + addr option \<times> state"
and fillObject :: "nat \<Rightarrow> addr \<Rightarrow> row \<Rightarrow> state \<Rightarrow> error + state"
and fillChilds :: "nat \<Rightarrow> row list \<Rightarrow> state \<Rightarrow> error + state"
and fillObjectWithRow :: "nat \<Rightarrow> addr \<Rightarrow> row \<Rightarrow> state \<Rightarrow> error + state"
where
  "selectById 0 i s = Inl RecursionLimit"
| "selectById (Suc n) i s =
     (case map_of (objDict s) i of
        Some a \<Rightarrow> Inr (Some a, s)
      | None \<Rightarrow>
          (case selectObjectById i (database s) of
             None \<Rightarrow> Inr (None, s)
           | Some objRow \<Rightarrow>
               let (a, s1) = buildObject (r_classname objRow) s in
               (case fillObject n a objRow s1 of
                  Inl e \<Rightarrow> Inl e
                | Inr s2 \<Rightarrow> Inr (Some a, s2))))"
| "fillObject n a objRow s =
     (case fillObjectWithRow n a objRow s of
        Inl e \<Rightarrow> Inl e
      | Inr s1 \<Rightarrow>
          let namePrefix = getNamePrefix (heap s1 ! a);
              childs = selectObjectsByAncestor namePrefix (database s1)
          in fillChilds n childs s1)"
| "fillChilds n [] s = Inr s"
| "fillChilds n (childRow # rest) s =
     (let childParts = split_dot (r_name childRow) in
      if length childParts < 2 then Inl IndexError
      else
        let childName = last childParts in
        case py_int (childParts ! (length childParts - 2)) of
          None \<Rightarrow> Inl ValueError
        | Some parentId \<Rightarrow>
            (case map_of (objDict s) parentId of
               None \<Rightarrow> Inl ParentNotFound
             | Some parentObj \<Rightarrow>
                 let (childObj, s1) =
                       (case map_of (attributes (heap s ! parentObj)) childName of
                          Some c \<Rightarrow> (c, s)
                        | None \<Rightarrow>
                            let (c, s') = buildObject (r_classname childRow) s in
                            (c, s'\<lparr>heap := (heap s')[parentObj := (heap s' ! parentObj)
                                   \<lparr>attributes := attributes (heap s' ! parentObj)
                                                    @ [(childName, c)]\<rparr>]\<rparr>))
                 in case fillObjectWithRow n childObj childRow s1 of
                      Inl e \<Rightarrow> Inl e
                    | Inr s2 \<Rightarrow> fillChilds n rest s2))"
| "fillObjectWithRow n a objRow s =
     (let s1 = s\<lparr>heap := (heap s)[a := (heap s ! a)\<lparr>objId := Some (r_id objRow)\<rparr>]\<rparr>;
          s2 = s1\<lparr>objDict := (r_id objRow, a) # objDict s1\<rparr>;
          s3 = s2\<lparr>heap := (heap s2)[a := (heap s2 ! a)
                  \<lparr>objName := getStrValue (Some (r_name objRow)),
                   objLabel := getStrValue (r_label objRow),
                   objComment := getStrValue (r_comment objRow),
                   objParentId := r_parent_id objRow\<rparr>]\<rparr>
      in if objIsPointer (heap s3 ! a)
         then (case r_value objRow of
                 Some v \<Rightarrow>
                   (case py_int v of
                      None \<Rightarrow> Inl ValueError
                    | Some i \<Rightarrow>
                        (case selectById n i s3 of
                           Inl e \<Rightarrow> Inl e
                         | Inr (r, s4) \<Rightarrow>
                             Inr (s4\<lparr>heap := (heap s4)[a := (heap s4 ! a)
                                    \<lparr>objValue := (case r of None \<Rightarrow> VNone
                                                   | Some b \<Rightarrow> VObj b)\<rparr>]\<rparr>)))
               | None \<Rightarrow> Inr (s3\<lparr>heap := (heap s3)[a := (heap s3 ! a)\<lparr>objValue := VNone\<rparr>]\<rparr>))
         else Inr (s3\<lparr>heap := (heap s3)[a := (heap s3 ! a)
                     \<lparr>objValue := (case r_value objRow of None \<Rightarrow> VNone
                                    | Some v \<Rightarrow> VStr v)\<rparr>]\<rparr>))"

subsection \<open>Notions used in the proofs of the walk\<close>

text \<open>The invariant of the walk of \<^verbatim>\<open>__updateTo\<close>: the ids it went on with are
  pairwise different, and they are the keys of \<^verbatim>\<open>updateDict\<close>.\<close>

definition walk_inv :: "state \<Rightarrow> bool" where
  "walk_inv s = (distinct (visited s) \<and> set (visited s) = dom (map_of (updateDict s)))"

text \<open>
  A heap in which every object is stored already: each object has an id, the
  attributes and the referents of the pointers are objects of the heap, and the
  values are what the classes allow (a pointer holds an object or nothing, another
  object holds a scalar or nothing).
\<close>

definition stored_heap :: "pobject list \<Rightarrow> bool" where
  "stored_heap h =
     list_all (\<lambda>obj. objId obj \<noteq> None \<and>
                     list_all (\<lambda>kc. snd kc < length h) (attributes obj) \<and>
                     (case objValue obj of
                        VNone \<Rightarrow> True
                      | VStr t \<Rightarrow> \<not> objIsPointer obj
                      | VObj r \<Rightarrow> objIsPointer obj \<and> r < length h)) h"

definition walk_post :: "state \<Rightarrow> state \<Rightarrow> bool" where
  "walk_post s s' =
     (heap s' = heap s \<and> updatePendingPointers s' = updatePendingPointers s \<and>
      walk_inv s' \<and> set (visited s') \<subseteq> set (map objId (heap s)) \<and>
      length (visited s) \<le> length (visited s'))"

subsection \<open>Example data\<close>

text \<open>An object that was never stored, and a mapper over a database whose last id
  is given.\<close>

definition new_object :: "string \<Rightarrow> bool \<Rightarrow> pyvalue \<Rightarrow> (string \<times> addr) list \<Rightarrow> pobject" where
  "new_object c p v as =
     \<lparr>objId = None, objName = [], objParentId = None, objLabel = [], objComment = [],
      className = c, objIsPointer = p, objValue = v, attributes = as\<rparr>"

definition new_mapper :: "pobject list \<Rightarrow> row list \<Rightarrow> nat \<Rightarrow> state" where
  "new_mapper h rs k =
     \<lparr>heap = h, database = \<lparr>rows = rs, lastId = k\<rparr>, objDict = [], updateDict = [],
      updatePendingPointers = [], visited = []\<rparr>"

text \<open>A new object (address 0) with two attributes: the pointer \<^verbatim>\<open>p\<close> (address 1)
  and, after it, the integer \<^verbatim>\<open>a\<close> (address 2) that \<^verbatim>\<open>p\<close> points to.\<close>

definition pointer_first :: "pobject list" where
  "pointer_first =
     [new_object ''Object'' False VNone [(''p'', 1), (''a'', 2)],
      new_object ''Pointer'' True (VObj 2) [],
      new_object ''Integer'' False (VStr ''5'') []]"

text \<open>The same object with the integer before the pointer.\<close>

definition pointer_last :: "pobject list" where
  "pointer_last =
     [new_object ''Object'' False VNone [(''a'', 2), (''p'', 1)],
      new_object ''Pointer'' True (VObj 2) [],
      new_object ''Integer'' False (VStr ''5'') []]"

text \<open>
  An object stored with id 1 and its pointer attribute \<^verbatim>\<open>p\<close> stored with id 2 and
  without value; since then the object has got the new attribute \<^verbatim>\<open>a\<close>, not
  stored yet, and \<^verbatim>\<open>p\<close> was set to point to it.
\<close>

definition pointer_to_new :: "pobject list" where
  "pointer_to_new =
     [(new_object ''Object'' False VNone [(''p'', 1), (''a'', 2)])\<lparr>objId := Some 1\<rparr>,
      (new_object ''Pointer'' True (VObj 2) [])
        \<lparr>objId := Some 2, objName := ''1.p'', objParentId := Some 1\<rparr>,
      new_object ''Integer'' False (VStr ''5'') []]"

definition pointer_to_new_rows :: "row list" where
  "pointer_to_new_rows =
     [\<lparr>r_id = 1, r_parent_id = None, r_name = [], r_classname = ''Object'',
       r_value = None, r_label = Some [], r_comment = Some []\<rparr>,
      \<lparr>r_id = 2, r_parent_id = Some 1, r_name = ''1.p'', r_classname = ''Pointer'',
       r_value = None, r_label = Some [], r_comment = Some []\<rparr>]"



section \<open>The flat mapper (pyworkflow/mapper/sqlite.py)\<close>

text \<open>
  Modelled from the spec: the objects that the flat mapper reads are instances of
  classes of \<^verbatim>\<open>pyworkflow/object.py\<close>, which is missing from the sources. An item
  is kept as the flat mapper stores it: its id, label and comment and, by the
  dotted name of the attribute, the value of every leaf attribute
  (\<^verbatim>\<open>setAttributeValue\<close> sets the value under such a name, and fails for a name
  that the object does not have). Items are mutable and shared, so they live in a
  heap and are named by their address.
\<close>

record fobject =
  f_objId :: "nat option"
  f_objLabel :: string
  f_objComment :: string
  f_className :: string
  f_values :: "(string \<times> string option) list"

text \<open>
  A row of the table \<^verbatim>\<open>Objects\<close> of a set: the three fixed columns and, after
  them, the columns of the attributes; a value is kept as its text, and \<open>None\<close>
  is \<^verbatim>\<open>NULL\<close>. A row of the table \<^verbatim>\<open>Classes\<close> holds the label of a property, the
  name of its column in \<^verbatim>\<open>Objects\<close> and the name of its class; the rows are in
  the order of their ids. \<^verbatim>\<open>createTables\<close> writes a row of \<^verbatim>\<open>Classes\<close> for every
  key of the dictionary of the object, and makes a column of \<^verbatim>\<open>Objects\<close> for
  every key but \<^verbatim>\<open>self\<close>, in the same order.
\<close>

record frow =
  fr_id :: nat
  fr_label :: "string option"
  fr_comment :: "string option"
  fr_columns :: "string option list"

record crow =
  label_property :: string
  column_name :: string
  class_name :: string

record flat_db =
  classes :: "crow list"
  objects :: "frow list"

record flat_mapper =
  fheap :: "fobject list"
  fdb :: flat_db
  objTemplate :: "addr option"
  objClassName :: string
  objColumns :: "(nat \<times> string) list"

text \<open>Modelled from the spec: \<^verbatim>\<open>_buildObject\<close> makes a new object of the class.\<close>

definition flat_buildObject :: "string \<Rightarrow> flat_mapper \<Rightarrow> addr \<times> flat_mapper" where
  "flat_buildObject classname m =
     (length (fheap m),
      m\<lparr>fheap := fheap m @
           [\<lparr>f_objId = None, f_objLabel = [], f_objComment = [], f_className = classname,
             f_values = []\<rparr>]\<rparr>)"

text \<open>The attribute of a label is made when the template does not have it yet.\<close>

definition addAttribute :: "string \<Rightarrow> fobject \<Rightarrow> fobject" where
  "addAttribute label obj =
     (if map_of (f_values obj) label \<noteq> None then obj
      else obj\<lparr>f_values := f_values obj @ [(label, None)]\<rparr>)"

text \<open>
  The loop of \<^verbatim>\<open>SqliteFlatMapper.__loadObjDict\<close> over the rows of \<^verbatim>\<open>Classes\<close>: the
  row \<^verbatim>\<open>self\<close> makes the template, every other row a column and an attribute of
  the template; without template, setting the attribute fails. The result is
  the list of the columns.
\<close>

fun loadClassRows ::
  "crow list \<Rightarrow> string list \<Rightarrow> flat_mapper \<Rightarrow> error + string list \<times> flat_mapper"
where
  "loadClassRows [] columnList m = Inr (columnList, m)"
| "loadClassRows (r # rs) columnList m =
     (let label = label_property r in
      if label = ''self''
      then let (a, m1) = flat_buildObject (class_name r) m in
           loadClassRows rs columnList
             (m1\<lparr>objClassName := class_name r, objTemplate := Some a\<rparr>)
      else (case objTemplate m of
              None \<Rightarrow> Inl AttributeError
            | Some t \<Rightarrow>
                loadClassRows rs (columnList @ [label])
                  (m\<lparr>fheap := (fheap m)[t := addAttribute label (fheap m ! t)]\<rparr>)))"

definition loadObjDict :: "flat_mapper \<Rightarrow> error + flat_mapper" where
  "loadObjDict m =
     (case loadClassRows (classes (fdb m)) [] m of
        Inl e \<Rightarrow> Inl e
      | Inr (columnList, m1) \<Rightarrow>
          let n = length (classes (fdb m)) + 2 in
          Inr (m1\<lparr>objColumns := zip [3..<n] columnList\<rparr>))"

text \<open>\<^verbatim>\<open>obj.setAttributeValue(attrName, objRow[c])\<close>: the column \<open>c\<close> of a row is
  the one after the three fixed ones.\<close>

definition setAttributeValue :: "string \<Rightarrow> string option \<Rightarrow> fobject \<Rightarrow> error + fobject" where
  "setAttributeValue attrName v obj =
     (if map_of (f_values obj) attrName = None then Inl AttributeError
      else Inr (obj\<lparr>f_values := map (\<lambda>kv. if fst kv = attrName then (attrName, v) else kv)
                                   (f_values obj)\<rparr>))"

fun setColumns :: "(nat \<times> string) list \<Rightarrow> frow \<Rightarrow> fobject \<Rightarrow> error + fobject" where
  "setColumns [] objRow obj = Inr obj"
| "setColumns ((c, attrName) # cols) objRow obj =
     (if c < 3 \<or> length (fr_columns objRow) \<le> c - 3 then Inl IndexError
      else (case setAttributeValue attrName (fr_columns objRow ! (c - 3)) obj of
              Inl e \<Rightarrow> Inl e
            | Inr obj' \<Rightarrow> setColumns cols objRow obj'))"

text \<open>What \<^verbatim>\<open>__objFromRow\<close> does to the template object: the id, the label, the
  comment and the columns of the row are written over its own. (For the attribute
  \<^verbatim>\<open>_mapperPath\<close> the code also registers a callback; the value is set alike.)\<close>

definition hydrate :: "(nat \<times> string) list \<Rightarrow> frow \<Rightarrow> fobject \<Rightarrow> error + fobject" where
  "hydrate cols objRow obj =
     setColumns cols objRow
       (obj\<lparr>f_objId := Some (fr_id objRow), f_objLabel := getStrValue (fr_label objRow),
            f_objComment := getStrValue (fr_comment objRow)\<rparr>)"

text \<open>\<^verbatim>\<open>SqliteFlatMapper.__objFromRow\<close>: the object it returns is the template.\<close>

definition flat_objFromRow :: "frow \<Rightarrow> flat_mapper \<Rightarrow> error + addr \<times> flat_mapper" where
  "flat_objFromRow objRow m =
     (case (if objTemplate m = None then loadObjDict m else Inr m) of
        Inl e \<Rightarrow> Inl e
      | Inr m1 \<Rightarrow>
          (case objTemplate m1 of
             None \<Rightarrow> Inl AttributeError
           | Some obj \<Rightarrow>
               (case hydrate (objColumns m1) objRow (fheap m1 ! obj) of
                  Inl e \<Rightarrow> Inl e
                | Inr filled \<Rightarrow> Inr (obj, m1\<lparr>fheap := (fheap m1)[obj := filled]\<rparr>))))"

text \<open>Modelled from the spec: \<^verbatim>\<open>Object.clone\<close> is missing from the sources; the
  clone is a new object with the same content, independent of the original.\<close>

definition clone :: "addr \<Rightarrow> flat_mapper \<Rightarrow> addr \<times> flat_mapper" where
  "clone obj m = (length (fheap m), m\<lparr>fheap := fheap m @ [fheap m ! obj]\<rparr>)"

text \<open>
  The generator \<^verbatim>\<open>__iterObjectsFromRows\<close>: its state is the rows that are left.
  A call of \<^verbatim>\<open>next\<close> takes rows until the object of one passes the filter and
  yields that object; \<open>None\<close> is the end of the iteration.
\<close>

fun iterObjectsFromRows ::
  "(fobject \<Rightarrow> bool) option \<Rightarrow> frow list \<Rightarrow> flat_mapper
     \<Rightarrow> error + (addr \<times> frow list) option \<times> flat_mapper" where
  "iterObjectsFromRows objectFilter [] m = Inr (None, m)"
| "iterObjectsFromRows objectFilter (objRow # objRows) m =
     (case flat_objFromRow objRow m of
        Inl e \<Rightarrow> Inl e
      | Inr (obj, m1) \<Rightarrow>
          if (case objectFilter of None \<Rightarrow> True | Some f \<Rightarrow> f (fheap m1 ! obj))
          then Inr (Some (obj, objRows), m1)
          else iterObjectsFromRows objectFilter objRows m1)"

text \<open>The list comprehension of \<^verbatim>\<open>__objectsFromRows\<close>: every object that the
  generator yields is cloned as it comes, before the generator goes on.\<close>

fun cloneObjectsFromRows ::
  "(fobject \<Rightarrow> bool) option \<Rightarrow> frow list \<Rightarrow> flat_mapper \<Rightarrow> error + addr list \<times> flat_mapper"
where
  "cloneObjectsFromRows objectFilter [] m = Inr ([], m)"
| "cloneObjectsFromRows objectFilter (objRow # objRows) m =
     (case flat_objFromRow objRow m of
        Inl e \<Rightarrow> Inl e
      | Inr (obj, m1) \<Rightarrow>
          if (case objectFilter of None \<Rightarrow> True | Some f \<Rightarrow> f (fheap m1 ! obj))
          then (case cloneObjectsFromRows objectFilter objRows (snd (clone obj m1)) of
                  Inl e \<Rightarrow> Inl e
                | Inr (cs, m2) \<Rightarrow> Inr (fst (clone obj m1) # cs, m2))
          else cloneObjectsFromRows objectFilter objRows m1)"

text \<open>What a select returns: a list of objects, or a generator.\<close>

datatype selection = ObjectList "addr list" | Generator "frow list"

text \<open>\<^verbatim>\<open>SqliteFlatMapper.__objectsFromRows\<close>.\<close>

definition flat_objectsFromRows ::
  "frow list \<Rightarrow> bool \<Rightarrow> (fobject \<Rightarrow> bool) option \<Rightarrow> flat_mapper
     \<Rightarrow> error + selection \<times> flat_mapper" where
  "flat_objectsFromRows objRows iterate objectFilter m =
     (if \<not> iterate
      then (case cloneObjectsFromRows objectFilter objRows m of
              Inl e \<Rightarrow> Inl e
            | Inr (cs, m1) \<Rightarrow> Inr (ObjectList cs, m1))
      else Inr (Generator objRows, m))"

subsection \<open>The queries of the flat database\<close>

text \<open>
  The names of the columns of the table \<^verbatim>\<open>Objects\<close>, in order. SQLite compares
  the names of columns without regard to the case of the letters of ASCII, and
  \<^verbatim>\<open>rowid\<close>, \<^verbatim>\<open>oid\<close> and \<^verbatim>\<open>_rowid_\<close> name the \<^verbatim>\<open>INTEGER PRIMARY KEY\<close>, here
  \<^verbatim>\<open>id\<close>, unless a column has that name. The result is the position of the
  column, \<open>None\<close> when the table has no such column.
\<close>

definition column_names :: "flat_db \<Rightarrow> string list" where
  "column_names d =
     [''id'', ''label'', ''comment'']
     @ map column_name (filter (\<lambda>r. label_property r \<noteq> ''self'') (classes d))"

definition resolve_column :: "flat_db \<Rightarrow> string \<Rightarrow> nat option" where
  "resolve_column d k =
     (let names = map (map ascii_upper) (column_names d);
          key = map ascii_upper k
      in case map_of (zip names [0..<length names]) key of
           Some j \<Rightarrow> Some j
         | None \<Rightarrow> if key \<in> set [''ROWID'', ''OID'', ''_ROWID_''] then Some 0 else None)"

text \<open>The value of a row in the column of a position.\<close>

definition cell :: "frow \<Rightarrow> nat \<Rightarrow> string option" where
  "cell r j =
     (if j = 0 then Some (str_nat (fr_id r))
      else if j = 1 then fr_label r
      else if j = 2 then fr_comment r
      else if j - 3 < length (fr_columns r) then fr_columns r ! (j - 3)
      else None)"

text \<open>
  \<^verbatim>\<open>SqliteFlatDb.selectObjectsBy\<close>. The keyword arguments are the pairs of a key
  and a value; the statement is \<^verbatim>\<open>SELECT * FROM Objects WHERE\<close>, the conditions
  \<^verbatim>\<open>key=?\<close> joined by \<^verbatim>\<open>AND\<close>, and \<^verbatim>\<open>ORDER BY id\<close>. Without keyword there is
  nothing between \<^verbatim>\<open>WHERE\<close> and \<^verbatim>\<open>ORDER\<close>, and SQLite refuses the statement; it
  also refuses a key that names no column. (The keys are taken to be names, as
  the call \<^verbatim>\<open>selectBy(key=value)\<close> makes them; the values are kept as their
  text, as in the rows.) A condition holds for a row when the column is not
  \<^verbatim>\<open>NULL\<close> and equals the value; no row meets a condition on the value
  \<^verbatim>\<open>None\<close>. The rows are fetched at once.
\<close>

definition condition :: "flat_db \<Rightarrow> frow \<Rightarrow> string \<times> string option \<Rightarrow> bool" where
  "condition d r kv =
     (case resolve_column d (fst kv) of
        None \<Rightarrow> False
      | Some j \<Rightarrow> snd kv \<noteq> None \<and> cell r j = snd kv)"

definition flat_selectObjectsBy ::
  "(string \<times> string option) list \<Rightarrow> flat_db \<Rightarrow> error + frow list" where
  "flat_selectObjectsBy args d =
     (if args = [] \<or> list_ex (\<lambda>kv. resolve_column d (fst kv) = None) args
      then Inl OperationalError
      else Inr (sort_key fr_id (filter (\<lambda>r. list_all (condition d r) args) (objects d))))"

text \<open>\<^verbatim>\<open>SqliteFlatDb.selectAll\<close>: every row, ordered by id. (The rows are fetched as
  the caller asks for them; this is the list of them as long as no other
  statement is executed meanwhile.)\<close>

definition flat_selectAllRows :: "flat_db \<Rightarrow> frow list" where
  "flat_selectAllRows d = sort_key fr_id (objects d)"

text \<open>\<^verbatim>\<open>SqliteFlatDb.selectObjectById\<close>: the first row of the statement with the
  condition \<^verbatim>\<open>id=?\<close>.\<close>

definition flat_selectObjectById :: "nat \<Rightarrow> flat_db \<Rightarrow> frow option" where
  "flat_selectObjectById i d = find (\<lambda>r. fr_id r = i) (sort_key fr_id (objects d))"

subsection \<open>The selects of the flat mapper\<close>

text \<open>\<^verbatim>\<open>SqliteFlatMapper.selectBy\<close>, \<^verbatim>\<open>selectAll\<close> and \<^verbatim>\<open>selectById\<close>.\<close>

definition flat_selectBy ::
  "(string \<times> string option) list \<Rightarrow> bool \<Rightarrow> (fobject \<Rightarrow> bool) option \<Rightarrow> flat_mapper
     \<Rightarrow> error + selection \<times> flat_mapper" where
  "flat_selectBy args iterate objectFilter m =
     (case flat_selectObjectsBy args (fdb m) of
        Inl e \<Rightarrow> Inl e
      | Inr objRows \<Rightarrow> flat_objectsFromRows objRows iterate objectFilter m)"

definition flat_selectAll ::
  "bool \<Rightarrow> (fobject \<Rightarrow> bool) option \<Rightarrow> flat_mapper \<Rightarrow> error + selection \<times> flat_mapper" where
  "flat_selectAll iterate objectFilter m =
     (case (if objTemplate m = None then loadObjDict m else Inr m) of
        Inl e \<Rightarrow> Inl e
      | Inr m1 \<Rightarrow> flat_objectsFromRows (flat_selectAllRows (fdb m1)) iterate objectFilter m1)"

definition flat_selectById :: "nat \<Rightarrow> flat_mapper \<Rightarrow> error + addr option \<times> flat_mapper" where
  "flat_selectById i m =
     (case flat_selectObjectById i (fdb m) of
        None \<Rightarrow> Inr (None, m)
      | Some objRow \<Rightarrow>
          (case flat_objFromRow objRow m of
             Inl e \<Rightarrow> Inl e
           | Inr (obj, m1) \<Rightarrow> Inr (Some obj, m1)))"

subsection \<open>Notions used in the statements on the flat mapper\<close>

text \<open>The labels of the properties that have a column, in the order of the
  columns.\<close>

definition attr_labels :: "flat_db \<Rightarrow> string list" where
  "attr_labels d = filter (\<lambda>l. l \<noteq> ''self'') (map label_property (classes d))"

text \<open>
  A database as \<^verbatim>\<open>createTables\<close> and \<^verbatim>\<open>insertObject\<close> leave it: the first row of
  \<^verbatim>\<open>Classes\<close> is the one of \<^verbatim>\<open>self\<close>; the labels are pairwise different (the
  column is \<^verbatim>\<open>UNIQUE\<close>); every row of \<^verbatim>\<open>Objects\<close> has a value, maybe
  \<^verbatim>\<open>NULL\<close>, in the column of every other row of \<^verbatim>\<open>Classes\<close>; the ids are
  pairwise different (\<^verbatim>\<open>PRIMARY KEY\<close>).
\<close>

definition flat_db_ok :: "flat_db \<Rightarrow> bool" where
  "flat_db_ok d =
     (classes d \<noteq> [] \<and> label_property (hd (classes d)) = ''self'' \<and>
      distinct (map label_property (classes d)) \<and>
      list_all (\<lambda>r. length (fr_columns r) = length (classes d) - 1) (objects d) \<and>
      distinct (map fr_id (objects d)))"

text \<open>
  A mapper over such a database that has no template yet, as it is when it was
  just opened, or has the template that \<^verbatim>\<open>__loadObjDict\<close> makes: an object of
  the heap, of the class of the row \<^verbatim>\<open>self\<close>, with the attributes of the
  labels, and the columns numbered from 3 on.
\<close>

definition flat_ok :: "flat_mapper \<Rightarrow> bool" where
  "flat_ok m =
     (flat_db_ok (fdb m) \<and>
      (case objTemplate m of
         None \<Rightarrow> True
       | Some t \<Rightarrow>
           t < length (fheap m) \<and>
           f_className (fheap m ! t) = class_name (hd (classes (fdb m))) \<and>
           objColumns m = zip [3..<length (classes (fdb m)) + 2] (attr_labels (fdb m)) \<and>
           map fst (f_values (fheap m ! t)) = attr_labels (fdb m)))"

text \<open>
  The object that a row of the table stands for: it has the id, the label and
  the comment of the row (the empty text for \<^verbatim>\<open>NULL\<close>), it is of the class of
  the row \<^verbatim>\<open>self\<close>, and the attribute of every label has the value of the column
  of the label.
\<close>

definition row_object :: "flat_db \<Rightarrow> frow \<Rightarrow> fobject" where
  "row_object d r =
     \<lparr>f_objId = Some (fr_id r), f_objLabel = getStrValue (fr_label r),
      f_objComment = getStrValue (fr_comment r),
      f_className = class_name (hd (classes d)),
      f_values = zip (attr_labels d) (fr_columns r)\<rparr>"

text \<open>The rows that pass the filter of a select: all of them without filter,
  and with a filter those whose object it accepts.\<close>

definition passes :: "(fobject \<Rightarrow> bool) option \<Rightarrow> flat_db \<Rightarrow> frow \<Rightarrow> bool" where
  "passes objectFilter d r =
     (case objectFilter of None \<Rightarrow> True | Some f \<Rightarrow> f (row_object d r))"

text \<open>What a read leaves as it was: the database, the objects other than the
  template, and, once there is a template, which object it is.\<close>

definition flat_step :: "flat_mapper \<Rightarrow> flat_mapper \<Rightarrow> bool" where
  "flat_step m m' =
     (flat_ok m' \<and> fdb m' = fdb m \<and> length (fheap m) \<le> length (fheap m') \<and>
      (\<forall>a<length (fheap m). objTemplate m \<noteq> Some a \<longrightarrow>
         fheap m' ! a = fheap m ! a \<and> objTemplate m' \<noteq> Some a) \<and>
      (objTemplate m \<noteq> None \<longrightarrow> objTemplate m' = objTemplate m))"

text \<open>
  The clones that a select returns for the rows \<open>kept\<close>, in the mapper \<open>m'\<close>
  that it leaves: they are pairwise different objects, made by this select, none
  of them the template, and they are the objects of the rows, in order.
\<close>

definition clones_of :: "flat_mapper \<Rightarrow> frow list \<Rightarrow> addr list \<Rightarrow> flat_mapper \<Rightarrow> bool" where
  "clones_of m kept cs m' =
     (distinct cs \<and>
      list_all (\<lambda>c. length (fheap m) \<le> c \<and> c < length (fheap m') \<and> objTemplate m' \<noteq> Some c) cs \<and>
      map (\<lambda>c. fheap m' ! c) cs = map (row_object (fdb m)) kept)"

subsection \<open>Example data\<close>

text \<open>A set of three micrographs, its mapper just opened.\<close>

definition example_flat :: flat_mapper where
  "example_flat =
     \<lparr>fheap = [],
      fdb = \<lparr>classes =
               [\<lparr>label_property = ''self'', column_name = ''c00'', class_name = ''Micrograph''\<rparr>,
                \<lparr>label_property = ''_filename'', column_name = ''c01'',
                 class_name = ''String''\<rparr>],
             objects =
               [\<lparr>fr_id = 1, fr_label = Some ''good'', fr_comment = None,
                 fr_columns = [Some ''a.mrc'']\<rparr>,
                \<lparr>fr_id = 2, fr_label = Some ''bad'', fr_comment = None,
                 fr_columns = [Some ''b.mrc'']\<rparr>,
                \<lparr>fr_id = 3, fr_label = Some ''good'', fr_comment = None,
                 fr_columns = [Some ''c.mrc'']\<rparr>]\<rparr>,
      objTemplate = None, objClassName = [], objColumns = []\<rparr>"

text \<open>The rows of the set, by their ids.\<close>

definition example_row :: "nat \<Rightarrow> frow" where
  "example_row i = objects (fdb example_flat) ! (i - 1)"

section \<open>Properties of steps and protocols\<close>

lemmas STATUS_defs =
  STATUS_SAVED_def STATUS_RUNNING_def STATUS_FINISHED_def STATUS_FAILED_def
  STATUS_ABORTED_def STATUS_INTERACTIVE_def

subsection \<open>Step.run\<close>

text \<open>
  C3, as the specification states it, fails in three places. A body that returns
  normally after it has set the status itself keeps that status:
  \<^verbatim>\<open>Protocol._run\<close> does so when one of its steps has failed, and \<^verbatim>\<open>run\<close> tests
  \<^verbatim>\<open>self.status == STATUS_RUNNING\<close> before it sets the status. An exception
  that does not derive from \<^verbatim>\<open>Exception\<close> leaves \<^verbatim>\<open>run\<close>. And when
  \<^verbatim>\<open>str(e)\<close> raises in the handler, that exception leaves \<^verbatim>\<open>run\<close> and the step
  is still running, without error message.
\<close>

theorem run_counterexample:
  "status (fst (run (\<lambda>s. Returns (setFailed ''Protocol failed: x'' s)) ''t1'' ''t2''
      (FunctionStep ''f'' ''a'' None))) = Some STATUS_FAILED
   \<and> STATUS_FAILED \<noteq> STATUS_FINISHED \<and> STATUS_FAILED \<noteq> STATUS_INTERACTIVE
   \<and> snd (run (\<lambda>s. Raises (PyBaseException ''KeyboardInterrupt'') s) ''t1'' ''t2''
      (FunctionStep ''f'' ''a'' None)) = Some (PyBaseException ''KeyboardInterrupt'')
   \<and> snd (run (\<lambda>s. Raises (PyUnprintable (PyException ''UnicodeEncodeError'')) s) ''t1'' ''t2''
      (FunctionStep ''f'' ''a'' None)) = Some (PyException ''UnicodeEncodeError'')
   \<and> status (fst (run (\<lambda>s. Raises (PyUnprintable (PyException ''UnicodeEncodeError'')) s)
      ''t1'' ''t2'' (FunctionStep ''f'' ''a'' None))) = Some STATUS_RUNNING
   \<and> error (fst (run (\<lambda>s. Raises (PyUnprintable (PyException ''UnicodeEncodeError'')) s)
      ''t1'' ''t2'' (FunctionStep ''f'' ''a'' None))) = None
   \<and> STATUS_RUNNING \<noteq> STATUS_FAILED"
  by (simp add: run_def setFailed_def setRunning_def FunctionStep_def STATUS_defs)

text \<open>
  C3, amended: \<^verbatim>\<open>Step.run\<close> does not propagate an exception of the body that
  derives from \<^verbatim>\<open>Exception\<close> and whose text \<^verbatim>\<open>str(e)\<close> can be taken: the
  status becomes FAILED and the error message that text. When \<^verbatim>\<open>str(e)\<close>
  raises, the exception it raises leaves \<^verbatim>\<open>run\<close>; an exception of the body that
  does not derive from \<^verbatim>\<open>Exception\<close> leaves \<^verbatim>\<open>run\<close> as well; in both cases
  the status and the error message stay as the body left them. When the body
  returns and the status is still RUNNING, the status becomes INTERACTIVE if the
  step is interactive and FINISHED otherwise; when the body returns after it has
  changed the status, the status stays as the body left it. In every outcome the
  end time is stamped.
\<close>

theorem run_contains_failure:
  fixes s :: "'a step_scheme"
  shows
  "(body (setRunning now1 s) = Raises (PyException msg) s' \<longrightarrow>
      snd (run body now1 now2 s) = None \<and>
      status (fst (run body now1 now2 s)) = Some STATUS_FAILED \<and>
      error (fst (run body now1 now2 s)) = Some msg)
   \<and> (body (setRunning now1 s) = Raises (PyUnprintable e) s' \<longrightarrow>
      snd (run body now1 now2 s) = Some e \<and>
      status (fst (run body now1 now2 s)) = status s' \<and>
      error (fst (run body now1 now2 s)) = error s')
   \<and> (body (setRunning now1 s) = Raises (PyBaseException name) s' \<longrightarrow>
      snd (run body now1 now2 s) = Some (PyBaseException name) \<and>
      status (fst (run body now1 now2 s)) = status s' \<and>
      error (fst (run body now1 now2 s)) = error s')
   \<and> (body (setRunning now1 s) = Returns s' \<and> status s' = Some STATUS_RUNNING \<longrightarrow>
      snd (run body now1 now2 s) = None \<and>
      status (fst (run body now1 now2 s)) =
        Some (if isInteractive s' then STATUS_INTERACTIVE else STATUS_FINISHED) \<and>
      error (fst (run body now1 now2 s)) = error s')
   \<and> (body (setRunning now1 s) = Returns s' \<and> status s' \<noteq> Some STATUS_RUNNING \<longrightarrow>
      snd (run body now1 now2 s) = None \<and>
      status (fst (run body now1 now2 s)) = status s' \<and>
      error (fst (run body now1 now2 s)) = error s')
   \<and> endTime (fst (run body now1 now2 s)) = Some now2"
  by (auto simp: run_def setFailed_def split: outcome.splits py_exception.splits)

theorem run_contains_failure_witness:
  "status (fst (run (\<lambda>s. Raises (PyException ''Missing filePaths: a.txt'') s) ''t1'' ''t2''
      (FunctionStep ''f'' ''a'' None))) = Some STATUS_FAILED
   \<and> error (fst (run (\<lambda>s. Raises (PyException ''Missing filePaths: a.txt'') s) ''t1'' ''t2''
      (FunctionStep ''f'' ''a'' None))) = Some ''Missing filePaths: a.txt''
   \<and> snd (run (\<lambda>s. Raises (PyUnprintable (PyException ''UnicodeEncodeError'')) s) ''t1'' ''t2''
      (FunctionStep ''f'' ''a'' None)) = Some (PyException ''UnicodeEncodeError'')
   \<and> status (fst (run (\<lambda>s. Raises (PyUnprintable (PyException ''UnicodeEncodeError'')) s)
      ''t1'' ''t2'' (FunctionStep ''f'' ''a'' None))) = Some STATUS_RUNNING
   \<and> snd (run (\<lambda>s. Raises (PyBaseException ''SystemExit'') s) ''t1'' ''t2''
      (FunctionStep ''f'' ''a'' None)) = Some (PyBaseException ''SystemExit'')
   \<and> status (fst (run (\<lambda>s. Raises (PyBaseException ''SystemExit'') s) ''t1'' ''t2''
      (FunctionStep ''f'' ''a'' None))) = Some STATUS_RUNNING
   \<and> status (fst (run Returns ''t1'' ''t2'' (FunctionStep ''f'' ''a'' None))) = Some STATUS_FINISHED
   \<and> status (fst (run Returns ''t1'' ''t2'' (FunctionStep ''f'' ''a'' (Some True))))
        = Some STATUS_INTERACTIVE
   \<and> status (fst (run (\<lambda>s. Returns (setAborted ''t'' s)) ''t1'' ''t2''
      (FunctionStep ''f'' ''a'' None))) = Some STATUS_ABORTED"
proof -
  let ?s = "FunctionStep ''f'' ''a'' None"
  let ?si = "FunctionStep ''f'' ''a'' (Some True)"
  let ?b1 = "\<lambda>s::step. Raises (PyException ''Missing filePaths: a.txt'') s"
  let ?b2 = "\<lambda>s::step. Raises (PyUnprintable (PyException ''UnicodeEncodeError'')) s"
  let ?b3 = "\<lambda>s::step. Returns (setAborted ''t'' s)"
  let ?b4 = "\<lambda>s::step. Raises (PyBaseException ''SystemExit'') s"
  have h1: "?b1 (setRunning ''t1'' ?s)
      = Raises (PyException ''Missing filePaths: a.txt'') (setRunning ''t1'' ?s)"
    by simp
  have h2: "Returns (setRunning ''t1'' ?s) = Returns (setRunning ''t1'' ?s)
           \<and> status (setRunning ''t1'' ?s) = Some STATUS_RUNNING"
    by (simp add: setRunning_def)
  have h2i: "Returns (setRunning ''t1'' ?si) = Returns (setRunning ''t1'' ?si)
           \<and> status (setRunning ''t1'' ?si) = Some STATUS_RUNNING"
    by (simp add: setRunning_def)
  have h3: "?b3 (setRunning ''t1'' ?s) = Returns (setAborted ''t'' (setRunning ''t1'' ?s))
           \<and> status (setAborted ''t'' (setRunning ''t1'' ?s)) \<noteq> Some STATUS_RUNNING"
    by (simp add: setAborted_def STATUS_defs)
  have h4: "?b2 (setRunning ''t1'' ?s)
      = Raises (PyUnprintable (PyException ''UnicodeEncodeError'')) (setRunning ''t1'' ?s)"
    by simp
  have h5: "?b4 (setRunning ''t1'' ?s)
      = Raises (PyBaseException ''SystemExit'') (setRunning ''t1'' ?s)"
    by simp
  have i: "isInteractive (setRunning ''t1'' ?si)" "\<not> isInteractive (setRunning ''t1'' ?s)"
    by (simp_all add: setRunning_def FunctionStep_def)
  have a: "status (setAborted ''t'' (setRunning ''t1'' ?s)) = Some STATUS_ABORTED"
    by (simp add: setAborted_def)
  have r: "status (setRunning ''t1'' ?s) = Some STATUS_RUNNING"
    by (simp add: setRunning_def)
  show ?thesis
    using run_contains_failure [where body = ?b1 and ?now1.0 = "''t1''" and s = ?s
        and msg = "''Missing filePaths: a.txt''" and s' = "setRunning ''t1'' ?s"
        and ?now2.0 = "''t2''"]
      run_contains_failure [where body = ?b2 and ?now1.0 = "''t1''" and s = ?s
        and e = "PyException ''UnicodeEncodeError''" and s' = "setRunning ''t1'' ?s"
        and ?now2.0 = "''t2''"]
      run_contains_failure [where body = ?b4 and ?now1.0 = "''t1''" and s = ?s
        and name = "''SystemExit''" and s' = "setRunning ''t1'' ?s" and ?now2.0 = "''t2''"]
      run_contains_failure [where body = Returns and ?now1.0 = "''t1''" and s = ?s
        and s' = "setRunning ''t1'' ?s" and ?now2.0 = "''t2''"]
      run_contains_failure [where body = Returns and ?now1.0 = "''t1''" and s = ?si
        and s' = "setRunning ''t1'' ?si" and ?now2.0 = "''t2''"]
      run_contains_failure [where body = ?b3 and ?now1.0 = "''t1''" and s = ?s
        and s' = "setAborted ''t'' (setRunning ''t1'' ?s)" and ?now2.0 = "''t2''"]
      h1 h2 h2i h3 h4 h5 i a r
    by simp
qed

subsection \<open>The loop of the resume algorithm\<close>

text \<open>The loop from position \<open>k\<close> on stops at the first position \<open>N\<close> that is not
  unchanged, and has then copied the old steps of the positions from \<open>k\<close> up to
  \<open>N\<close>, and no other.\<close>

lemma loop_stops:
  "N - k = d \<Longrightarrow> k \<le> N \<Longrightarrow> N < n \<Longrightarrow> n \<le> length new \<Longrightarrow>
   (\<And>i. k \<le> i \<Longrightarrow> i < N \<Longrightarrow> unchanged fs (new ! i) (old ! i)) \<Longrightarrow>
   \<not> unchanged fs (new ! N) (old ! N) \<Longrightarrow>
   (\<exists>new'. findStartingStep_loop fs [k..<n] new old = (Some N, new') \<and>
      length new' = length new \<and>
      (\<forall>i<length new. new' ! i =
         (if k \<le> i \<and> i < N then copy (new ! i) (old ! i) else new ! i)))"
proof (induction d arbitrary: k new)
  case 0
  then have kN: "k = N" by simp
  have "[k..<n] = k # [Suc k..<n]" using 0 kN by (simp add: upt_conv_Cons)
  then show ?case using 0 kN by (auto simp: unchanged_def step_ne_def Let_def)
next
  case (Suc d)
  then have lt: "k < N" by simp
  have up: "[k..<n] = k # [Suc k..<n]" using Suc.prems lt by (simp add: upt_conv_Cons)
  have gk: "unchanged fs (new ! k) (old ! k)" using Suc.prems lt by simp
  let ?new = "new[k := copy (new ! k) (old ! k)]"
  have step: "findStartingStep_loop fs [k..<n] new old
      = findStartingStep_loop fs [Suc k..<n] ?new old"
    using gk by (simp add: up unchanged_def step_ne_def Let_def)
  have "\<exists>new'. findStartingStep_loop fs [Suc k..<n] ?new old = (Some N, new') \<and>
      length new' = length ?new \<and>
      (\<forall>i<length ?new. new' ! i =
         (if Suc k \<le> i \<and> i < N then copy (?new ! i) (old ! i) else ?new ! i))"
  proof (rule Suc.IH)
    show "N - Suc k = d" using Suc.prems by simp
    show "Suc k \<le> N" using lt by simp
    show "N < n" using Suc.prems by simp
    show "n \<le> length ?new" using Suc.prems by simp
    show "\<And>i. Suc k \<le> i \<Longrightarrow> i < N \<Longrightarrow> unchanged fs (?new ! i) (old ! i)"
      using Suc.prems by simp
    show "\<not> unchanged fs (?new ! N) (old ! N)" using Suc.prems lt by simp
  qed
  then obtain new' where r: "findStartingStep_loop fs [Suc k..<n] ?new old = (Some N, new')"
    "length new' = length new"
    "\<forall>i<length new. new' ! i =
       (if Suc k \<le> i \<and> i < N then copy (?new ! i) (old ! i) else ?new ! i)"
    by auto
  have "\<forall>i<length new. new' ! i =
      (if k \<le> i \<and> i < N then copy (new ! i) (old ! i) else new ! i)"
  proof (intro allI impI)
    fix i assume i: "i < length new"
    show "new' ! i = (if k \<le> i \<and> i < N then copy (new ! i) (old ! i) else new ! i)"
    proof (cases "i = k")
      case True
      then show ?thesis using r(3) i lt by simp
    next
      case False
      then show ?thesis using r(3) i by auto
    qed
  qed
  then show ?case using step r by simp
qed

text \<open>When every position from \<open>k\<close> on is unchanged the loop runs to its end.\<close>

lemma loop_runs_out:
  "n - k = d \<Longrightarrow> n \<le> length new \<Longrightarrow>
   (\<And>i. k \<le> i \<Longrightarrow> i < n \<Longrightarrow> unchanged fs (new ! i) (old ! i)) \<Longrightarrow>
   (\<exists>new'. findStartingStep_loop fs [k..<n] new old = (None, new') \<and>
      length new' = length new \<and>
      (\<forall>i<length new. new' ! i =
         (if k \<le> i \<and> i < n then copy (new ! i) (old ! i) else new ! i)))"
proof (induction d arbitrary: k new)
  case 0
  then have "[k..<n] = []" by simp
  then show ?case using 0 by auto
next
  case (Suc d)
  then have lt: "k < n" by simp
  have up: "[k..<n] = k # [Suc k..<n]" using lt by (simp add: upt_conv_Cons)
  have gk: "unchanged fs (new ! k) (old ! k)" using Suc.prems lt by simp
  let ?new = "new[k := copy (new ! k) (old ! k)]"
  have step: "findStartingStep_loop fs [k..<n] new old
      = findStartingStep_loop fs [Suc k..<n] ?new old"
    using gk by (simp add: up unchanged_def step_ne_def Let_def)
  have "\<exists>new'. findStartingStep_loop fs [Suc k..<n] ?new old = (None, new') \<and>
      length new' = length ?new \<and>
      (\<forall>i<length ?new. new' ! i =
         (if Suc k \<le> i \<and> i < n then copy (?new ! i) (old ! i) else ?new ! i))"
  proof (rule Suc.IH)
    show "n - Suc k = d" using Suc.prems by simp
    show "n \<le> length ?new" using Suc.prems by simp
    show "\<And>i. Suc k \<le> i \<Longrightarrow> i < n \<Longrightarrow> unchanged fs (?new ! i) (old ! i)"
      using Suc.prems by simp
  qed
  then obtain new' where r: "findStartingStep_loop fs [Suc k..<n] ?new old = (None, new')"
    "length new' = length new"
    "\<forall>i<length new. new' ! i =
       (if Suc k \<le> i \<and> i < n then copy (?new ! i) (old ! i) else ?new ! i)"
    by auto
  have "\<forall>i<length new. new' ! i =
      (if k \<le> i \<and> i < n then copy (new ! i) (old ! i) else new ! i)"
  proof (intro allI impI)
    fix i assume i: "i < length new"
    show "new' ! i = (if k \<le> i \<and> i < n then copy (new ! i) (old ! i) else new ! i)"
    proof (cases "i = k")
      case True
      then show ?thesis using r(3) i lt by simp
    next
      case False
      then show ?thesis using r(3) i by auto
    qed
  qed
  then show ?case using step r by simp
qed

lemma isFinished_copy: "isFinished (copy a b) = isFinished b"
  by (simp add: isFinished_def getStatus_def copy_def)

subsection \<open>The resume point\<close>

text \<open>
  C2 (deterministic resume point). When the run mode is not restart, the first
  \<open>N\<close> positions of the persisted and of the new step list each hold an old step
  that is finished, equal to the new one (same function name, same serialized
  arguments) and passes its postcondition check, and position \<open>N\<close> of both lists
  violates one of these three conditions, then \<^verbatim>\<open>__findStartingStep\<close> returns
  \<open>N\<close>; the new step of every position before \<open>N\<close> has got the persisted state
  of the old step copied onto it, and the other new steps are as they were.
\<close>

theorem findStartingStep_resume_point:
  assumes mode: "runMode p \<noteq> MODE_RESTART"
    and N: "N < length (steps p)" "N < length (loadSteps p)"
    and before: "\<forall>i<N. isFinished (loadSteps p ! i) \<and> step_eq (steps p ! i) (loadSteps p ! i)
                   \<and> postconditions fs (loadSteps p ! i)"
    and at: "\<not> (isFinished (loadSteps p ! N) \<and> step_eq (steps p ! N) (loadSteps p ! N)
                   \<and> postconditions fs (loadSteps p ! N))"
  shows "fst (findStartingStep fs p) = N \<and>
         length (steps (snd (findStartingStep fs p))) = length (steps p) \<and>
         (\<forall>i<length (steps p). steps (snd (findStartingStep fs p)) ! i =
            (if i < N then copy (steps p ! i) (loadSteps p ! i) else steps p ! i))"
proof -
  let ?n = "min (length (steps p)) (length (loadSteps p))"
  have "\<exists>new'. findStartingStep_loop fs [0..<?n] (steps p) (loadSteps p) = (Some N, new') \<and>
      length new' = length (steps p) \<and>
      (\<forall>i<length (steps p). new' ! i =
         (if 0 \<le> i \<and> i < N then copy (steps p ! i) (loadSteps p ! i) else steps p ! i))"
  proof (rule loop_stops [where d = N])
    show "N - 0 = N" by simp
    show "0 \<le> N" by simp
    show "N < ?n" using N by simp
    show "?n \<le> length (steps p)" by simp
    show "\<And>i. 0 \<le> i \<Longrightarrow> i < N \<Longrightarrow> unchanged fs (steps p ! i) (loadSteps p ! i)"
      using before by (simp add: unchanged_def)
    show "\<not> unchanged fs (steps p ! N) (loadSteps p ! N)" using at by (simp add: unchanged_def)
  qed
  then obtain new' where r:
    "findStartingStep_loop fs [0..<?n] (steps p) (loadSteps p) = (Some N, new')"
    "length new' = length (steps p)"
    "\<forall>i<length (steps p). new' ! i =
         (if i < N then copy (steps p ! i) (loadSteps p ! i) else steps p ! i)"
    by auto
  have "findStartingStep fs p = (N, p\<lparr>prevSteps := loadSteps p, steps := new'\<rparr>)"
    using mode r(1) by (simp add: findStartingStep_def Let_def)
  then show ?thesis using r(2,3) by simp
qed

theorem findStartingStep_resume_point_witness:
  "fst (findStartingStep {}
     (example_protocol\<lparr>runMode := MODE_RESUME, steps := example_steps,
        stepsFile := Some example_prevSteps\<rparr>)) = 1
   \<and> steps (snd (findStartingStep {}
     (example_protocol\<lparr>runMode := MODE_RESUME, steps := example_steps,
        stepsFile := Some example_prevSteps\<rparr>))) ! 0
      = copy (example_steps ! 0) (example_prevSteps ! 0)
   \<and> steps (snd (findStartingStep {}
     (example_protocol\<lparr>runMode := MODE_RESUME, steps := example_steps,
        stepsFile := Some example_prevSteps\<rparr>))) ! 1 = example_steps ! 1"
proof -
  let ?p = "example_protocol\<lparr>runMode := MODE_RESUME, steps := example_steps,
        stepsFile := Some example_prevSteps\<rparr>"
  have mode: "runMode ?p \<noteq> MODE_RESTART" by (simp add: MODE_RESUME_def MODE_RESTART_def)
  have old: "loadSteps ?p = example_prevSteps" by (simp add: loadSteps_def)
  have N: "1 < length (steps ?p)" "1 < length (loadSteps ?p)"
    unfolding old by (simp_all add: example_steps_def example_prevSteps_def)
  have before: "\<forall>i<1. isFinished (loadSteps ?p ! i) \<and> step_eq (steps ?p ! i) (loadSteps ?p ! i)
                   \<and> postconditions {} (loadSteps ?p ! i)"
    unfolding old
    by (simp add: example_steps_def example_prevSteps_def example_finished_def
        isFinished_def getStatus_def step_eq_def postconditions_def FunctionStep_def)
  have at: "\<not> (isFinished (loadSteps ?p ! 1) \<and> step_eq (steps ?p ! 1) (loadSteps ?p ! 1)
                   \<and> postconditions {} (loadSteps ?p ! 1))"
    unfolding old
    by (simp add: example_steps_def example_prevSteps_def example_finished_def
        step_eq_def FunctionStep_def)
  have len: "length (steps ?p) = 3" by (simp add: example_steps_def)
  show ?thesis
    using findStartingStep_resume_point [OF mode N before at, of] old len by simp
qed

text \<open>
  C6 (idempotent resume at the end of the list). When the run mode is not restart
  and at every position up to the length of the shorter of the two lists the old
  step is finished, equal to the new step and passes its postcondition check,
  \<^verbatim>\<open>__findStartingStep\<close> returns that length. In particular, when the persisted
  list is as long as the new one, as after a run to completion of the unchanged
  protocol, the resume index is the number of steps, and every new step is
  finished, so that nothing is left to execute.
\<close>

theorem findStartingStep_end_of_list:
  assumes mode: "runMode p \<noteq> MODE_RESTART"
    and agree: "\<forall>i<min (length (steps p)) (length (loadSteps p)).
                   isFinished (loadSteps p ! i) \<and> step_eq (steps p ! i) (loadSteps p ! i)
                   \<and> postconditions fs (loadSteps p ! i)"
  shows "fst (findStartingStep fs p) = min (length (steps p)) (length (loadSteps p)) \<and>
         (length (loadSteps p) = length (steps p) \<longrightarrow>
            fst (findStartingStep fs p) = length (steps p) \<and>
            (\<forall>i<length (steps p). isFinished (steps (snd (findStartingStep fs p)) ! i)))"
proof -
  let ?n = "min (length (steps p)) (length (loadSteps p))"
  have "\<exists>new'. findStartingStep_loop fs [0..<?n] (steps p) (loadSteps p) = (None, new') \<and>
      length new' = length (steps p) \<and>
      (\<forall>i<length (steps p). new' ! i =
         (if 0 \<le> i \<and> i < ?n then copy (steps p ! i) (loadSteps p ! i) else steps p ! i))"
  proof (rule loop_runs_out [where d = ?n])
    show "?n - 0 = ?n" by simp
    show "?n \<le> length (steps p)" by simp
    show "\<And>i. 0 \<le> i \<Longrightarrow> i < ?n \<Longrightarrow> unchanged fs (steps p ! i) (loadSteps p ! i)"
      using agree by (simp add: unchanged_def)
  qed
  then obtain new' where r:
    "findStartingStep_loop fs [0..<?n] (steps p) (loadSteps p) = (None, new')"
    "length new' = length (steps p)"
    "\<forall>i<length (steps p). new' ! i =
         (if i < ?n then copy (steps p ! i) (loadSteps p ! i) else steps p ! i)"
    by auto
  have eq: "findStartingStep fs p = (?n, p\<lparr>prevSteps := loadSteps p, steps := new'\<rparr>)"
    using mode r(1) by (simp add: findStartingStep_def Let_def)
  show ?thesis using eq r(3) agree by (auto simp: isFinished_copy)
qed

theorem findStartingStep_end_of_list_witness:
  "fst (findStartingStep {}
     (example_protocol\<lparr>runMode := MODE_RESUME, steps := example_steps,
        stepsFile := Some example_unchanged\<rparr>)) = 3
   \<and> isFinished (steps (snd (findStartingStep {}
     (example_protocol\<lparr>runMode := MODE_RESUME, steps := example_steps,
        stepsFile := Some example_unchanged\<rparr>))) ! 2)"
proof -
  let ?p = "example_protocol\<lparr>runMode := MODE_RESUME, steps := example_steps,
        stepsFile := Some example_unchanged\<rparr>"
  have mode: "runMode ?p \<noteq> MODE_RESTART" by (simp add: MODE_RESUME_def MODE_RESTART_def)
  have old: "loadSteps ?p = example_unchanged" by (simp add: loadSteps_def)
  have len: "length (steps ?p) = 3" "length (loadSteps ?p) = 3"
    unfolding old by (simp_all add: example_steps_def example_unchanged_def)
  have agree: "\<forall>i<min (length (steps ?p)) (length (loadSteps ?p)).
                   isFinished (loadSteps ?p ! i) \<and> step_eq (steps ?p ! i) (loadSteps ?p ! i)
                   \<and> postconditions {} (loadSteps ?p ! i)"
    unfolding len old
    by (simp add: example_steps_def example_unchanged_def example_finished_def
        isFinished_def getStatus_def step_eq_def postconditions_def FunctionStep_def
        less_Suc_eq numeral_3_eq_3)
  show ?thesis
    using findStartingStep_end_of_list [OF mode agree] len by simp
qed

text \<open>
  C7 (restart starts at zero). When the run mode is restart,
  \<^verbatim>\<open>__findStartingStep\<close> returns 0 and sets \<^verbatim>\<open>_prevSteps\<close> to the empty list,
  whatever the steps file holds: the file is not read, and nothing else of the
  protocol changes.
\<close>

theorem findStartingStep_restart:
  "runMode p = MODE_RESTART \<Longrightarrow>
     fst (findStartingStep fs (p\<lparr>stepsFile := f\<rparr>)) = 0 \<and>
     prevSteps (snd (findStartingStep fs (p\<lparr>stepsFile := f\<rparr>))) = [] \<and>
     snd (findStartingStep fs (p\<lparr>stepsFile := f\<rparr>)) = p\<lparr>stepsFile := f, prevSteps := []\<rparr>"
  by (simp add: findStartingStep_def)

theorem findStartingStep_restart_witness:
  "runMode example_protocol = MODE_RESTART \<and>
   fst (findStartingStep {} (example_protocol\<lparr>stepsFile := Some example_unchanged\<rparr>)) = 0 \<and>
   prevSteps (snd (findStartingStep {}
     (example_protocol\<lparr>stepsFile := Some example_unchanged\<rparr>))) = []"
proof -
  have m: "runMode example_protocol = MODE_RESTART"
    by (simp add: example_protocol_def Protocol_def)
  show ?thesis using findStartingStep_restart [OF m, of "{}" "Some example_unchanged"] m by simp
qed

subsection \<open>Inserting steps\<close>

lemma insertFunctionStep_Callable:
  "insertFunctionStep members name args kw p = Inr (i, p') \<Longrightarrow>
     i = Suc (length (steps p)) \<and>
     steps p' = steps p @
       [(FunctionStep name args (kw_isInteractive kw))
          \<lparr>prerequisites :=
             (case kw_prerequisites kw of
                None \<Rightarrow> if length (steps p) \<noteq> 0 then [length (steps p)] else []
              | Some is \<Rightarrow> is),
           index := Some (Suc (length (steps p)))\<rparr>]"
  by (auto simp: insertFunctionStep_def insertStep_def Let_def FunctionStep_def
      split: member.splits option.splits)

text \<open>From any protocol on: the steps inserted are appended, the \<open>j\<close>-th of them gets
  its position in the list as index, and by default the position before it as
  its only prerequisite.\<close>

lemma insertFunctionSteps_shape:
  "insertFunctionSteps members calls p = Inr (is, p') \<Longrightarrow>
     is = [Suc (length (steps p))..<Suc (length (steps p) + length calls)] \<and>
     length (steps p') = length (steps p) + length calls \<and>
     take (length (steps p)) (steps p') = steps p \<and>
     (\<forall>j<length calls.
        index (steps p' ! (length (steps p) + j)) = Some (Suc (length (steps p) + j)) \<and>
        (kw_prerequisites (snd (snd (calls ! j))) = None \<longrightarrow>
           prerequisites (steps p' ! (length (steps p) + j)) =
             (if length (steps p) + j = 0 then [] else [length (steps p) + j])))"
proof (induction calls arbitrary: p "is")
  case Nil
  then show ?case by simp
next
  case (Cons c calls)
  obtain name args kw where c: "c = (name, args, kw)" by (cases c) auto
  from Cons.prems c obtain i p1 is1 where
    one: "insertFunctionStep members name args kw p = Inr (i, p1)" and
    rest: "insertFunctionSteps members calls p1 = Inr (is1, p')" and
    "is": "is = i # is1"
    by (auto split: sum.splits prod.splits)
  let ?m = "length (steps p)"
  let ?st = "(FunctionStep name args (kw_isInteractive kw))
          \<lparr>prerequisites :=
             (case kw_prerequisites kw of
                None \<Rightarrow> if ?m \<noteq> 0 then [?m] else []
              | Some is \<Rightarrow> is),
           index := Some (Suc ?m)\<rparr>"
  from insertFunctionStep_Callable [OF one]
  have i: "i = Suc ?m" and p1: "steps p1 = steps p @ [?st]" by auto
  have len1: "length (steps p1) = Suc ?m" using p1 by simp
  note ih = Cons.IH [OF rest, unfolded len1]
  have tk: "take (Suc ?m) (steps p') = steps p @ [?st]" using ih p1 by simp
  have tk0: "take ?m (steps p') = steps p"
  proof -
    have "take ?m (take (Suc ?m) (steps p')) = take ?m (steps p @ [?st])" using tk by simp
    then show ?thesis by (simp add: min_def)
  qed
  have at0: "steps p' ! ?m = ?st"
  proof -
    have "steps p' ! ?m = take (Suc ?m) (steps p') ! ?m" by simp
    also have "\<dots> = ?st" using tk by (simp add: nth_append)
    finally show ?thesis .
  qed
  have is1: "is1 = [Suc (length (steps p1))..<Suc (length (steps p1) + length calls)]"
    using Cons.IH [OF rest] by blast
  have idx: "is = [Suc ?m..<Suc (?m + length (c # calls))]"
    using is1 "is" i len1 by (simp add: upt_conv_Cons del: upt_Suc)
  have all: "\<forall>j<length (c # calls).
        index (steps p' ! (?m + j)) = Some (Suc (?m + j)) \<and>
        (kw_prerequisites (snd (snd ((c # calls) ! j))) = None \<longrightarrow>
           prerequisites (steps p' ! (?m + j)) = (if ?m + j = 0 then [] else [?m + j]))"
  proof (intro allI impI)
    fix j assume j: "j < length (c # calls)"
    show "index (steps p' ! (?m + j)) = Some (Suc (?m + j)) \<and>
        (kw_prerequisites (snd (snd ((c # calls) ! j))) = None \<longrightarrow>
           prerequisites (steps p' ! (?m + j)) = (if ?m + j = 0 then [] else [?m + j]))"
    proof (cases j)
      case 0
      then show ?thesis using at0 c by simp
    next
      case (Suc j')
      then have "j' < length calls" using j by simp
      with ih have "index (steps p' ! (Suc ?m + j')) = Some (Suc (Suc ?m + j')) \<and>
        (kw_prerequisites (snd (snd (calls ! j'))) = None \<longrightarrow>
           prerequisites (steps p' ! (Suc ?m + j')) =
             (if Suc ?m + j' = 0 then [] else [Suc ?m + j']))"
        by blast
      then show ?thesis using Suc by simp
    qed
  qed
  show ?case using idx all tk0 ih by simp
qed

text \<open>
  C10 (step insertion indexing and default chaining). For every sequence of
  insertions into a protocol that has no steps yet, as \<^verbatim>\<open>Protocol.__init__\<close>
  leaves it, the \<open>i\<close>-th inserted step is the \<open>i\<close>-th of \<^verbatim>\<open>_steps\<close>, its
  \<^verbatim>\<open>_index\<close> is \<open>i\<close>, counted from 1, and the insertion returns \<open>i\<close>. A step
  inserted without the argument \<^verbatim>\<open>prerequisites\<close> gets no prerequisite when it
  is the first, and otherwise exactly one: the index of the step before it.
\<close>

theorem insertStep_index_and_chaining:
  assumes "steps p = []" and "insertFunctionSteps members calls p = Inr (is, p')"
  shows "is = [1..<Suc (length calls)] \<and> length (steps p') = length calls \<and>
     (\<forall>i<length calls.
        index (steps p' ! i) = Some (i + 1) \<and>
        (kw_prerequisites (snd (snd (calls ! i))) = None \<longrightarrow>
           prerequisites (steps p' ! i) = (if i = 0 then [] else [i])))"
  using insertFunctionSteps_shape [OF assms(2)] assms(1) by simp

theorem insertStep_index_and_chaining_witness:
  "(case insertFunctionSteps (\<lambda>n. Callable) example_calls (Protocol None MODE_RESUME) of
      Inl e \<Rightarrow> False
    | Inr (is, p') \<Rightarrow>
        is = [1, 2, 3] \<and> index (steps p' ! 0) = Some 1 \<and> index (steps p' ! 1) = Some 2 \<and>
        index (steps p' ! 2) = Some 3 \<and> prerequisites (steps p' ! 0) = [] \<and>
        prerequisites (steps p' ! 1) = [1])"
proof -
  let ?p = "Protocol None MODE_RESUME"
  have e: "steps ?p = []" by (simp add: Protocol_def)
  obtain "is" p' where r: "insertFunctionSteps (\<lambda>n. Callable) example_calls ?p = Inr (is, p')"
    by (simp add: example_calls_def insertFunctionStep_def insertStep_def Let_def)
  have len: "length example_calls = 3" by (simp add: example_calls_def)
  have kw: "kw_prerequisites (snd (snd (example_calls ! 0))) = None"
    "kw_prerequisites (snd (snd (example_calls ! 1))) = None"
    by (simp_all add: example_calls_def)
  from insertStep_index_and_chaining [OF e r]
  have "is = [1..<Suc 3]" and
    all: "\<forall>i<3. index (steps p' ! i) = Some (i + 1) \<and>
        (kw_prerequisites (snd (snd (example_calls ! i))) = None \<longrightarrow>
           prerequisites (steps p' ! i) = (if i = 0 then [] else [i]))"
    unfolding len by blast+
  then have i: "is = [1, 2, 3]" by (simp add: upt_rec)
  have "index (steps p' ! 0) = Some 1" "index (steps p' ! 1) = Some 2"
    "index (steps p' ! 2) = Some 3" "prerequisites (steps p' ! 0) = []"
    "prerequisites (steps p' ! 1) = [1]"
    using all kw by auto
  then show ?thesis using r i by simp
qed

subsection \<open>The run mode after a run\<close>



















section \<open>Properties of the graph mapper\<close>

subsection \<open>What insert leaves alone\<close>

lemma getObjectValue_keeps:
  "getObjectValue a s = Inr (v, s') \<Longrightarrow>
     heap s' = heap s \<and> database s' = database s \<and> updateDict s' = updateDict s \<and>
     visited s' = visited s \<and> objDict s' = objDict s"
  by (auto simp: getObjectValue_def Let_def split: if_splits pyvalue.splits)

lemma insertRow_keeps:
  "insertRow a pre s = Inr (childPrefix, s') \<Longrightarrow>
     updateDict s' = updateDict s \<and> visited s' = visited s"
  by (auto simp: insertRow_def Let_def split: sum.splits prod.splits dest: getObjectValue_keeps)

lemma setChild_keeps:
  "updateDict (setChild pre key a attr s) = updateDict s"
  "visited (setChild pre key a attr s) = visited s"
  by (simp_all add: setChild_def Let_def)

lemma insert_keeps:
  shows "insert_rec n a pre s = Inr s' \<Longrightarrow>
           updateDict s' = updateDict s \<and> visited s' = visited s"
    and "insertChilds n a childPrefix as s = Inr s' \<Longrightarrow>
           updateDict s' = updateDict s \<and> visited s' = visited s"
proof (induction n a pre s and n a childPrefix as s arbitrary: s' and s'
    rule: insert_rec_insertChilds.induct)
  case (1 a namePrefix s)
  then show ?case by simp
next
  case (2 n a namePrefix s)
  from "2.prems" obtain childPrefix s1 where g: "insertRow a namePrefix s = Inr (childPrefix, s1)"
    and c: "insertChilds n a childPrefix (attributes (heap s1 ! a)) s1 = Inr s'"
    by (auto split: sum.splits)
  show ?case using "2.IH" [OF g refl c] insertRow_keeps [OF g] by simp
next
  case (3 n a namePrefix s)
  then show ?case by simp
next
  case (4 n a namePrefix key attr rest s)
  from "4.prems" obtain s1 where
    i: "insert_rec n attr (Some namePrefix) (setChild namePrefix key a attr s) = Inr s1"
    and c: "insertChilds n a namePrefix rest s1 = Inr s'"
    by (auto split: sum.splits)
  show ?case using "4.IH"(1) [OF i] "4.IH"(2) [OF i c] by (simp add: setChild_keeps)
qed

subsection \<open>The walk of updateTo visits no id twice\<close>

lemma updateRow_keeps:
  "updateRow a s = Inr s' \<Longrightarrow>
     heap s' = heap s \<and> updateDict s' = updateDict s \<and> visited s' = visited s"
  by (auto simp: updateRow_def Let_def split: sum.splits prod.splits dest: getObjectValue_keeps)

lemma adoptChild_keeps:
  "updateDict (snd (adoptChild key a attr s)) = updateDict s"
  "visited (snd (adoptChild key a attr s)) = visited s"
  by (simp_all add: adoptChild_def Let_def)

lemma walk_inv_visit:
  "walk_inv s \<Longrightarrow> map_of (updateDict s) k = None \<Longrightarrow>
     walk_inv (s\<lparr>updateDict := (k, a) # updateDict s, visited := visited s @ [k]\<rparr>)"
  by (auto simp: walk_inv_def dom_def)

lemma walk_inv_update:
  shows "updateTo_rec n a s = Inr s' \<Longrightarrow> walk_inv s \<Longrightarrow> walk_inv s'"
    and "updateTo_attrs n a as s = Inr s' \<Longrightarrow> walk_inv s \<Longrightarrow> walk_inv s'"
proof (induction n a s and n a as s arbitrary: s' and s'
    rule: updateTo_rec_updateTo_attrs.induct)
  case (1 a s)
  then show ?case by simp
next
  case (2 n a s)
  from "2.prems"(1) obtain s1 where u: "updateRow a s = Inr s1"
    and fresh: "map_of (updateDict s1) (objId (heap s1 ! a)) = None"
    and c: "updateTo_attrs n a (attributes (heap s1 ! a))
              (s1\<lparr>updateDict := (objId (heap s1 ! a), a) # updateDict s1,
                  visited := visited s1 @ [objId (heap s1 ! a)]\<rparr>) = Inr s'"
    by (auto split: sum.splits if_splits)
  have "walk_inv s1" using "2.prems"(2) updateRow_keeps [OF u] by (simp add: walk_inv_def)
  then have "walk_inv (s1\<lparr>updateDict := (objId (heap s1 ! a), a) # updateDict s1,
                  visited := visited s1 @ [objId (heap s1 ! a)]\<rparr>)"
    using fresh by (rule walk_inv_visit)
  with "2.IH" [OF u _ c] fresh show ?case by simp
next
  case (3 n a s)
  then show ?case by simp
next
  case (4 n a key attr rest s)
  show ?case
  proof (cases "objId (heap s ! attr) = None")
    case True
    with "4.prems"(1) obtain s1 where
      i: "insert_rec n attr (Some (fst (adoptChild key a attr s))) (snd (adoptChild key a attr s))
            = Inr s1"
      and c: "updateTo_attrs n a rest s1 = Inr s'"
      by (auto split: sum.splits)
    have "walk_inv s1"
      using insert_keeps(1) [OF i] "4.prems"(2) by (simp add: walk_inv_def adoptChild_keeps)
    moreover have "(if objId (heap s ! attr) = None
            then insert_rec n attr (Some (fst (adoptChild key a attr s)))
                   (snd (adoptChild key a attr s))
            else updateTo_rec n attr s) = Inr s1" using i by (simp add: True)
    ultimately show ?thesis using "4.IH"(2) c by blast
  next
    case False
    with "4.prems"(1) obtain s1 where
      i: "updateTo_rec n attr s = Inr s1"
      and c: "updateTo_attrs n a rest s1 = Inr s'"
      by (auto split: sum.splits)
    have "walk_inv s1" using "4.IH"(1) [OF False i "4.prems"(2)] .
    moreover have "(if objId (heap s ! attr) = None
            then insert_rec n attr (Some (fst (adoptChild key a attr s)))
                   (snd (adoptChild key a attr s))
            else updateTo_rec n attr s) = Inr s1" using i by (simp add: False)
    ultimately show ?thesis using "4.IH"(2) c by blast
  qed
qed

lemma updatePending_visited:
  "updatePending k i root s = Inr s' \<Longrightarrow> visited s' = visited s"
proof (induction k arbitrary: i s)
  case 0
  then show ?case by (simp split: if_splits)
next
  case (Suc k)
  show ?case
  proof (cases "i < length (updatePendingPointers s)")
    case True
    with Suc.prems obtain v s1 where g: "getObjectValue root s = Inr (v, s1)"
      by (auto simp: Let_def split: sum.splits)
    with Suc.prems True Suc.IH getObjectValue_keeps [OF g] show ?thesis
      by (auto simp: Let_def)
  next
    case False
    with Suc.prems show ?thesis by simp
  qed
qed

lemma updateTo_distinct:
  "updateTo limit rounds a s = Inr s' \<Longrightarrow> distinct (visited s')"
proof -
  assume r: "updateTo limit rounds a s = Inr s'"
  then obtain s1 where w: "updateTo_rec limit a (initUpdateDict s) = Inr s1"
    and p: "updatePending rounds 0 a s1 = Inr s'"
    by (auto simp: updateTo_def split: sum.splits)
  have "walk_inv (initUpdateDict s)" by (simp add: walk_inv_def initUpdateDict_def)
  from walk_inv_update(1) [OF w this] have "distinct (visited s1)" by (simp add: walk_inv_def)
  then show ?thesis using updatePending_visited [OF p] by simp
qed

text \<open>A call of \<^verbatim>\<open>__updateTo\<close> on an id that the pass has visited does not return.\<close>

lemma second_visit_fails:
  "map_of (updateDict s) (objId (heap s ! a)) \<noteq> None \<Longrightarrow> updateTo_rec n a s \<noteq> Inr s'"
proof (cases n)
  case 0
  then show ?thesis by simp
next
  case (Suc m)
  assume k: "map_of (updateDict s) (objId (heap s ! a)) \<noteq> None"
  show ?thesis
  proof (cases "updateRow a s")
    case (Inl e)
    then show ?thesis using Suc by simp
  next
    case (Inr s1)
    from updateRow_keeps [OF Inr] k
    have "map_of (updateDict s1) (objId (heap s1 ! a)) \<noteq> None" by simp
    then show ?thesis using Suc Inr by simp
  qed
qed

subsection \<open>When every object is stored, the walk ends\<close>

lemma stored_heap_nth:
  "stored_heap h \<Longrightarrow> a < length h \<Longrightarrow>
     objId (h ! a) \<noteq> None \<and> list_all (\<lambda>kc. snd kc < length h) (attributes (h ! a)) \<and>
     (case objValue (h ! a) of
        VNone \<Rightarrow> True
      | VStr t \<Rightarrow> \<not> objIsPointer (h ! a)
      | VObj r \<Rightarrow> objIsPointer (h ! a) \<and> r < length h)"
  by (simp add: stored_heap_def list_all_length)

lemma updateRow_stored:
  assumes "stored_heap (heap s)" "a < length (heap s)"
  shows "\<exists>s1. updateRow a s = Inr s1 \<and> heap s1 = heap s \<and>
           updatePendingPointers s1 = updatePendingPointers s \<and>
           updateDict s1 = updateDict s \<and> visited s1 = visited s"
proof -
  note n = stored_heap_nth [OF assms]
  show ?thesis
  proof (cases "objValue (heap s ! a)")
    case VNone
    then show ?thesis by (simp add: updateRow_def getObjectValue_def Let_def)
  next
    case (VStr t)
    then show ?thesis using n by (simp add: updateRow_def getObjectValue_def Let_def)
  next
    case (VObj r)
    then have "objIsPointer (heap s ! a)" "r < length (heap s)" using n by simp_all
    then have "hasObjId (heap s ! r)"
      using stored_heap_nth [OF assms(1), of r] by (simp add: hasObjId_def)
    then show ?thesis using VObj \<open>objIsPointer (heap s ! a)\<close>
      by (simp add: updateRow_def getObjectValue_def Let_def)
  qed
qed

text \<open>The walk has visited at most as many ids as the heap has objects.\<close>

lemma visited_bound:
  assumes "walk_inv s" "set (visited s) \<subseteq> set (map objId (heap s))"
  shows "length (visited s) \<le> length (heap s)"
proof -
  have d: "distinct (visited s)" using assms(1) by (simp add: walk_inv_def)
  have "length (visited s) = card (set (visited s))"
    using distinct_card [OF d] by simp
  also have "\<dots> \<le> card (set (map objId (heap s)))"
    using assms(2) by (simp add: card_mono)
  also have "\<dots> \<le> length (map objId (heap s))" by (rule card_length)
  finally show ?thesis by simp
qed

text \<open>Every nested call has one more id in \<^verbatim>\<open>updateDict\<close>; so with a limit above the
  number of objects the walk returns or raises the circular reference.\<close>

lemma walk_stored:
  shows "a < length (heap s) \<Longrightarrow> stored_heap (heap s) \<Longrightarrow> walk_inv s \<Longrightarrow>
         set (visited s) \<subseteq> set (map objId (heap s)) \<Longrightarrow>
         length (heap s) < n + length (visited s) \<Longrightarrow>
         updateTo_rec n a s = Inl CircularReference \<or>
         (\<exists>s'. updateTo_rec n a s = Inr s' \<and> walk_post s s')"
    and "list_all (\<lambda>kc. snd kc < length (heap s)) as \<Longrightarrow> stored_heap (heap s) \<Longrightarrow>
         walk_inv s \<Longrightarrow> set (visited s) \<subseteq> set (map objId (heap s)) \<Longrightarrow>
         length (heap s) < n + length (visited s) \<Longrightarrow>
         updateTo_attrs n a as s = Inl CircularReference \<or>
         (\<exists>s'. updateTo_attrs n a as s = Inr s' \<and> walk_post s s')"
proof (induction n a s and n a as s rule: updateTo_rec_updateTo_attrs.induct)
  case (1 a s)
  from visited_bound [OF "1.prems"(3,4)] "1.prems"(5) show ?case by simp
next
  case (2 n a s)
  from updateRow_stored [OF "2.prems"(2,1)] obtain s1 where
    u: "updateRow a s = Inr s1" and h: "heap s1 = heap s"
    and pe: "updatePendingPointers s1 = updatePendingPointers s"
    and ud: "updateDict s1 = updateDict s" and vi: "visited s1 = visited s"
    by blast
  show ?case
  proof (cases "map_of (updateDict s1) (objId (heap s1 ! a)) \<noteq> None")
    case True
    then show ?thesis using u by simp
  next
    case False
    let ?s3 = "s1\<lparr>updateDict := (objId (heap s1 ! a), a) # updateDict s1,
                   visited := visited s1 @ [objId (heap s1 ! a)]\<rparr>"
    have w1: "walk_inv s1" using "2.prems"(3) ud vi by (simp add: walk_inv_def)
    have w3: "walk_inv ?s3" using walk_inv_visit [OF w1] False by simp
    have in_ids: "objId (heap s ! a) \<in> set (map objId (heap s))"
      using "2.prems"(1) by simp
    have sub3: "set (visited ?s3) \<subseteq> set (map objId (heap ?s3))"
      using "2.prems"(4) in_ids h vi by simp
    have len3: "length (heap ?s3) < n + length (visited ?s3)"
      using "2.prems"(5) h vi by simp
    have attrs: "list_all (\<lambda>kc. snd kc < length (heap ?s3)) (attributes (heap s1 ! a))"
      using stored_heap_nth [OF "2.prems"(2,1)] h by simp
    have sh3: "stored_heap (heap ?s3)" using "2.prems"(2) h by simp
    from "2.IH" [OF u False attrs sh3 w3 sub3 len3]
    have "updateTo_attrs n a (attributes (heap s1 ! a)) ?s3 = Inl CircularReference \<or>
         (\<exists>s'. updateTo_attrs n a (attributes (heap s1 ! a)) ?s3 = Inr s' \<and> walk_post ?s3 s')" .
    then show ?thesis
    proof
      assume "updateTo_attrs n a (attributes (heap s1 ! a)) ?s3 = Inl CircularReference"
      then show ?thesis using u False by simp
    next
      assume "\<exists>s'. updateTo_attrs n a (attributes (heap s1 ! a)) ?s3 = Inr s' \<and> walk_post ?s3 s'"
      then obtain s' where r: "updateTo_attrs n a (attributes (heap s1 ! a)) ?s3 = Inr s'"
        and p: "walk_post ?s3 s'" by blast
      have "walk_post s s'" using p h pe vi by (simp add: walk_post_def)
      then show ?thesis using u False r by simp
    qed
  qed
next
  case (3 n a s)
  then show ?case by (simp add: walk_post_def)
next
  case (4 n a key attr rest s)
  have av: "attr < length (heap s)" and rv: "list_all (\<lambda>kc. snd kc < length (heap s)) rest"
    using "4.prems"(1) by simp_all
  have idn: "objId (heap s ! attr) \<noteq> None"
    using stored_heap_nth [OF "4.prems"(2) av] by simp
  from "4.IH"(1) [OF idn av "4.prems"(2,3,4,5)]
  have "updateTo_rec n attr s = Inl CircularReference \<or>
         (\<exists>s'. updateTo_rec n attr s = Inr s' \<and> walk_post s s')" .
  then show ?case
  proof
    assume "updateTo_rec n attr s = Inl CircularReference"
    then show ?thesis by (simp add: idn)
  next
    assume "\<exists>s'. updateTo_rec n attr s = Inr s' \<and> walk_post s s'"
    then obtain s1 where r: "updateTo_rec n attr s = Inr s1" and p: "walk_post s s1" by blast
    have sel: "(if objId (heap s ! attr) = None
            then insert_rec n attr (Some (fst (adoptChild key a attr s)))
                   (snd (adoptChild key a attr s))
            else updateTo_rec n attr s) = Inr s1" using r by (simp add: idn)
    have h: "heap s1 = heap s" using p by (simp add: walk_post_def)
    have pre: "list_all (\<lambda>kc. snd kc < length (heap s1)) rest" "stored_heap (heap s1)"
      "walk_inv s1" "set (visited s1) \<subseteq> set (map objId (heap s1))"
      "length (heap s1) < n + length (visited s1)"
      using p rv "4.prems"(2,5) by (simp_all add: walk_post_def)
    from "4.IH"(2) [OF sel pre]
    have "updateTo_attrs n a rest s1 = Inl CircularReference \<or>
         (\<exists>s'. updateTo_attrs n a rest s1 = Inr s' \<and> walk_post s1 s')" .
    then show ?thesis
    proof
      assume "updateTo_attrs n a rest s1 = Inl CircularReference"
      then show ?thesis using r by (simp add: idn)
    next
      assume "\<exists>s'. updateTo_attrs n a rest s1 = Inr s' \<and> walk_post s1 s'"
      then obtain s' where r': "updateTo_attrs n a rest s1 = Inr s'" and p': "walk_post s1 s'"
        by blast
      have "walk_post s s'" using p p' by (simp add: walk_post_def)
      then show ?thesis using r r' by (simp add: idn)
    qed
  qed
qed

lemma updateTo_stored:
  assumes "stored_heap (heap s)" "a < length (heap s)" "length (heap s) < limit"
  shows "updateTo limit rounds a s = Inl CircularReference \<or>
         (\<exists>s'. updateTo limit rounds a s = Inr s' \<and> distinct (visited s'))"
proof -
  let ?s0 = "initUpdateDict s"
  have pre: "a < length (heap ?s0)" "stored_heap (heap ?s0)" "walk_inv ?s0"
    "set (visited ?s0) \<subseteq> set (map objId (heap ?s0))"
    "length (heap ?s0) < limit + length (visited ?s0)"
    using assms by (simp_all add: initUpdateDict_def walk_inv_def)
  from walk_stored(1) [OF pre]
  show ?thesis
  proof
    assume "updateTo_rec limit a ?s0 = Inl CircularReference"
    then show ?thesis by (simp add: updateTo_def)
  next
    assume "\<exists>s'. updateTo_rec limit a ?s0 = Inr s' \<and> walk_post ?s0 s'"
    then obtain s1 where r: "updateTo_rec limit a ?s0 = Inr s1" and p: "walk_post ?s0 s1"
      by blast
    have "updatePendingPointers s1 = []" using p by (simp add: walk_post_def initUpdateDict_def)
    then have "updatePending rounds 0 a s1 = Inr s1" by (cases rounds) simp_all
    moreover have "distinct (visited s1)" using p by (simp add: walk_post_def walk_inv_def)
    ultimately show ?thesis using r by (simp add: updateTo_def)
  qed
qed

subsection \<open>A cycle through an attribute that is not stored yet\<close>



subsection \<open>Pending pointers\<close>

text \<open>
  C5 (pending pointer rewrite): the code does not do what the claim says. After
  the walk, \<^verbatim>\<open>updateTo\<close> rewrites the row of every pending pointer with
  \<^verbatim>\<open>self.__getObjectValue(obj)\<close>, the value of the object that \<^verbatim>\<open>updateTo\<close> was
  called with, not with the value of the pointer \<^verbatim>\<open>ptr\<close>. Here the object of id
  1 is updated; its pointer \<^verbatim>\<open>p\<close> (id 2) points to the new attribute \<^verbatim>\<open>a\<close>. The
  walk queues \<^verbatim>\<open>p\<close> and inserts \<^verbatim>\<open>a\<close> with id 3; then the row of \<^verbatim>\<open>p\<close> gets the
  value of the object, which is \<^verbatim>\<open>NULL\<close>, and not the id 3 of its referent.
\<close>

theorem updateTo_pending_pointer:
  "(case updateTo 10 10 0 (new_mapper pointer_to_new pointer_to_new_rows 2) of
      Inl e \<Rightarrow> None
    | Inr s \<Rightarrow> Some (map objId (heap s), updatePendingPointers s,
                     map (\<lambda>r. (r_id r, r_value r)) (rows (database s))))
   = Some ([Some 1, Some 2, Some 3], [1], [(1, None), (2, None), (3, Some ''5'')])"
  by code_simp

subsection \<open>Insert and select\<close>

text \<open>
  C1 (tree round-trip): the code does not do what the claim says when a pointer
  is inserted before its referent. \<^verbatim>\<open>insert\<close> stores the text
  \<^verbatim>\<open>Pending update\<close> as the value of such a pointer and queues the pointer, but
  unlike \<^verbatim>\<open>updateTo\<close> it never looks at the queue again; \<^verbatim>\<open>selectById\<close> then
  fails on \<^verbatim>\<open>int('Pending update')\<close>. With the referent before the pointer the
  tree comes back, the pointer resolved to the object of the id of its referent.
\<close>

theorem insert_select_pending_pointer:
  "(case insert_obj 10 0 (new_mapper pointer_first [] 0) of
      Inl e \<Rightarrow> None
    | Inr s \<Rightarrow> Some (map r_value (rows (database s)), updatePendingPointers s,
                     map_sum id fst (selectById 10 1 s)))
   = Some ([None, Some ''Pending update'', Some ''5''], [1], Inl ValueError)
   \<and> (case insert_obj 10 0 (new_mapper pointer_last [] 0) of
      Inl e \<Rightarrow> None
    | Inr s \<Rightarrow>
        (case selectById 10 1 s of
           Inl e \<Rightarrow> None
         | Inr (r, s') \<Rightarrow>
             Some (r, map (\<lambda>obj. (objId obj, objValue obj, attributes obj)) (drop 3 (heap s')))))
   = Some (Some 3, [(Some 1, VNone, [(''a'', 4), (''p'', 5)]), (Some 2, VStr ''5'', []),
                    (Some 3, VObj 4, [])])"
  by code_simp

section \<open>Properties of the flat mapper\<close>

subsection \<open>The database\<close>

lemma find_SomeD: "find P xs = Some x \<Longrightarrow> x \<in> set xs \<and> P x"
  by (induction xs) (auto split: if_splits)

lemma flat_db_ok_classes:
  assumes "flat_db_ok d"
  obtains c rest where "classes d = c # rest" "label_property c = ''self''"
    "\<forall>r\<in>set rest. label_property r \<noteq> ''self''" "distinct (map label_property rest)"
    "attr_labels d = map label_property rest"
proof -
  from assms have "classes d \<noteq> []" by (simp add: flat_db_ok_def)
  then obtain c rest where cl: "classes d = c # rest" by (cases "classes d") auto
  have s: "label_property c = ''self''" using assms cl by (simp add: flat_db_ok_def)
  have "distinct (map label_property (classes d))" using assms by (simp add: flat_db_ok_def)
  then have dist: "distinct (map label_property (c # rest))" unfolding cl .
  have ns: "\<forall>r\<in>set rest. label_property r \<noteq> ''self''"
  proof
    fix r assume "r \<in> set rest"
    then have "label_property r \<in> label_property ` set rest" by simp
    moreover have "label_property c \<notin> label_property ` set rest" using dist by simp
    ultimately show "label_property r \<noteq> ''self''" using s by metis
  qed
  have "filter (\<lambda>l. l \<noteq> ''self'') (map label_property rest) = map label_property rest"
    using ns by (auto simp: filter_id_conv)
  then have "attr_labels d = map label_property rest" using cl s by (simp add: attr_labels_def)
  then show ?thesis using that cl s ns dist by simp
qed

lemma flat_db_ok_labels:
  assumes "flat_db_ok d"
  shows "distinct (attr_labels d)" "length (attr_labels d) = length (classes d) - 1"
  using assms by (auto elim!: flat_db_ok_classes)

lemma flat_db_ok_row:
  "flat_db_ok d \<Longrightarrow> r \<in> set (objects d) \<Longrightarrow> length (fr_columns r) = length (attr_labels d)"
  using flat_db_ok_labels(2) [of d] by (auto simp: flat_db_ok_def list_all_iff)

lemma flat_selectObjectById_found:
  assumes "flat_db_ok d" "r \<in> set (objects d)"
  shows "flat_selectObjectById (fr_id r) d = Some r"
proof -
  have "r \<in> set (sort_key fr_id (objects d))" using assms(2) by simp
  then obtain x where f: "find (\<lambda>x. fr_id x = fr_id r) (sort_key fr_id (objects d)) = Some x"
    by (cases "find (\<lambda>x. fr_id x = fr_id r) (sort_key fr_id (objects d))")
       (auto simp: find_None_iff)
  then have x: "fr_id x = fr_id r" "x \<in> set (objects d)"
    by (auto dest: find_SomeD)
  have "inj_on fr_id (set (objects d))"
    using assms(1) by (simp add: flat_db_ok_def distinct_map)
  then have "x = r" using x assms(2) by (auto dest: inj_onD)
  then show ?thesis using f by (simp add: flat_selectObjectById_def)
qed

lemma flat_selectObjectById_none:
  "i \<notin> fr_id ` set (objects d) \<Longrightarrow> flat_selectObjectById i d = None"
  by (auto simp: flat_selectObjectById_def find_None_iff)

lemma flat_selectObjectById_in:
  "flat_selectObjectById i d = Some r \<Longrightarrow> r \<in> set (objects d)"
  by (auto simp: flat_selectObjectById_def dest: find_SomeD)

lemma flat_selectObjectsBy_in:
  "flat_selectObjectsBy args d = Inr objRows \<Longrightarrow> set objRows \<subseteq> set (objects d)"
  by (auto simp: flat_selectObjectsBy_def split: if_splits)

lemma flat_selectAllRows_in: "set (flat_selectAllRows d) \<subseteq> set (objects d)"
  by (simp add: flat_selectAllRows_def)


subsection \<open>Loading the template\<close>

lemma addAttribute_new:
  "l \<notin> set (map fst (f_values obj)) \<Longrightarrow>
     map fst (f_values (addAttribute l obj)) = map fst (f_values obj) @ [l]"
  "f_className (addAttribute l obj) = f_className obj"
  by (auto simp: addAttribute_def map_of_eq_None_iff)

lemma loadClassRows_rest:
  assumes "\<forall>r\<in>set rs. label_property r \<noteq> ''self''" "objTemplate m = Some t"
    "t < length (fheap m)" "distinct (map label_property rs)"
    "set (map fst (f_values (fheap m ! t))) \<inter> set (map label_property rs) = {}"
  shows "\<exists>m'. loadClassRows rs cols m = Inr (cols @ map label_property rs, m') \<and>
           fdb m' = fdb m \<and> objTemplate m' = Some t \<and> length (fheap m') = length (fheap m) \<and>
           (\<forall>a<length (fheap m). a \<noteq> t \<longrightarrow> fheap m' ! a = fheap m ! a) \<and>
           f_className (fheap m' ! t) = f_className (fheap m ! t) \<and>
           map fst (f_values (fheap m' ! t))
             = map fst (f_values (fheap m ! t)) @ map label_property rs"
  using assms
proof (induction rs arbitrary: cols m)
  case Nil
  then show ?case by simp
next
  case (Cons r rs)
  let ?l = "label_property r"
  let ?m1 = "m\<lparr>fheap := (fheap m)[t := addAttribute ?l (fheap m ! t)]\<rparr>"
  have ns: "?l \<noteq> ''self''" using Cons.prems(1) by simp
  have step: "loadClassRows (r # rs) cols m = loadClassRows rs (cols @ [?l]) ?m1"
    using ns Cons.prems(2) by (simp add: Let_def)
  have fresh: "?l \<notin> set (map fst (f_values (fheap m ! t)))" using Cons.prems(5) by auto
  have t1: "fheap ?m1 ! t = addAttribute ?l (fheap m ! t)" using Cons.prems(3) by simp
  have k1: "map fst (f_values (fheap ?m1 ! t)) = map fst (f_values (fheap m ! t)) @ [?l]"
    unfolding t1 using addAttribute_new(1) [OF fresh] .
  have pre: "\<forall>r\<in>set rs. label_property r \<noteq> ''self''" "objTemplate ?m1 = Some t"
    "t < length (fheap ?m1)" "distinct (map label_property rs)"
    "set (map fst (f_values (fheap ?m1 ! t))) \<inter> set (map label_property rs) = {}"
    using Cons.prems k1 by auto
  from Cons.IH [OF pre, of "cols @ [?l]"] obtain m' where
    r: "loadClassRows rs (cols @ [?l]) ?m1 = Inr ((cols @ [?l]) @ map label_property rs, m')"
    and k: "fdb m' = fdb ?m1" "objTemplate m' = Some t" "length (fheap m') = length (fheap ?m1)"
      "\<forall>a<length (fheap ?m1). a \<noteq> t \<longrightarrow> fheap m' ! a = fheap ?m1 ! a"
      "f_className (fheap m' ! t) = f_className (fheap ?m1 ! t)"
      "map fst (f_values (fheap m' ! t))
         = map fst (f_values (fheap ?m1 ! t)) @ map label_property rs"
    by blast
  have "\<forall>a<length (fheap m). a \<noteq> t \<longrightarrow> fheap m' ! a = fheap m ! a" using k(4) by simp
  moreover have "f_className (fheap m' ! t) = f_className (fheap m ! t)"
    using k(5) t1 by (simp add: addAttribute_new(2))
  moreover have "map fst (f_values (fheap m' ! t))
      = map fst (f_values (fheap m ! t)) @ map label_property (r # rs)"
    using k(6) k1 by simp
  ultimately show ?case using step r k(1,2,3) by simp
qed

lemma loadObjDict_ok:
  assumes d: "flat_db_ok (fdb m)" and n: "objTemplate m = None"
  shows "\<exists>m'. loadObjDict m = Inr m' \<and> flat_ok m' \<and> fdb m' = fdb m \<and>
           objTemplate m' = Some (length (fheap m)) \<and>
           length (fheap m') = Suc (length (fheap m)) \<and>
           (\<forall>a<length (fheap m). fheap m' ! a = fheap m ! a)"
proof -
  from d obtain c rest where cl: "classes (fdb m) = c # rest" and s: "label_property c = ''self''"
    and ns: "\<forall>r\<in>set rest. label_property r \<noteq> ''self''"
    and dr: "distinct (map label_property rest)"
    and al: "attr_labels (fdb m) = map label_property rest"
    by (rule flat_db_ok_classes)
  let ?t = "length (fheap m)"
  let ?m1 = "(snd (flat_buildObject (class_name c) m))\<lparr>objClassName := class_name c,
               objTemplate := Some ?t\<rparr>"
  have first: "loadClassRows (c # rest) [] m = loadClassRows rest [] ?m1"
    using s by (simp add: Let_def flat_buildObject_def)
  have pre: "objTemplate ?m1 = Some ?t" "?t < length (fheap ?m1)"
    "set (map fst (f_values (fheap ?m1 ! ?t))) \<inter> set (map label_property rest) = {}"
    by (simp_all add: flat_buildObject_def)
  from loadClassRows_rest [OF ns pre(1,2) dr pre(3), of "[]"] obtain m2 where
    r: "loadClassRows rest [] ?m1 = Inr (map label_property rest, m2)"
    and k: "fdb m2 = fdb ?m1" "objTemplate m2 = Some ?t" "length (fheap m2) = length (fheap ?m1)"
      "\<forall>a<length (fheap ?m1). a \<noteq> ?t \<longrightarrow> fheap m2 ! a = fheap ?m1 ! a"
      "f_className (fheap m2 ! ?t) = f_className (fheap ?m1 ! ?t)"
      "map fst (f_values (fheap m2 ! ?t))
         = map fst (f_values (fheap ?m1 ! ?t)) @ map label_property rest"
    by auto
  let ?m' = "m2\<lparr>objColumns := zip [3..<length (classes (fdb m)) + 2] (map label_property rest)\<rparr>"
  have res: "loadObjDict m = Inr ?m'"
    using first r by (simp add: loadObjDict_def cl Let_def)
  have db: "fdb ?m' = fdb m" using k(1) by (simp add: flat_buildObject_def)
  have len: "length (fheap ?m') = Suc ?t" using k(3) by (simp add: flat_buildObject_def)
  have old: "\<forall>a<?t. fheap ?m' ! a = fheap m ! a"
    using k(4) by (simp add: flat_buildObject_def nth_append)
  have cn: "f_className (fheap ?m' ! ?t) = class_name (hd (classes (fdb m)))"
    using k(5) by (simp add: flat_buildObject_def cl)
  have keys: "map fst (f_values (fheap ?m' ! ?t)) = attr_labels (fdb m)"
    using k(6) by (simp add: flat_buildObject_def al)
  have "flat_ok ?m'"
    using d db k(2) len cn keys al by (simp add: flat_ok_def)
  then show ?thesis using res db k(2) len old by (intro exI [of _ ?m']) simp
qed

subsection \<open>Filling the template with a row\<close>

lemma setAttributeValue_map_of:
  "map_of (map (\<lambda>kv. if fst kv = a then (a, v) else kv) xs) k =
     (if k = a then map_option (\<lambda>x. v) (map_of xs a) else map_of xs k)"
  by (induction xs) auto

lemma setAttributeValue_keys:
  "map fst (map (\<lambda>kv. if fst kv = a then (a, v) else kv) xs) = map fst xs"
  by (induction xs) auto

lemma setAttributeValue_ok:
  assumes "a \<in> set (map fst (f_values obj))"
  shows "\<exists>obj'. setAttributeValue a v obj = Inr obj' \<and>
           f_objId obj' = f_objId obj \<and> f_objLabel obj' = f_objLabel obj \<and>
           f_objComment obj' = f_objComment obj \<and> f_className obj' = f_className obj \<and>
           map fst (f_values obj') = map fst (f_values obj) \<and>
           map_of (f_values obj') a = Some v \<and>
           (\<forall>k. k \<noteq> a \<longrightarrow> map_of (f_values obj') k = map_of (f_values obj) k)"
proof -
  from assms obtain y where y: "map_of (f_values obj) a = Some y"
    by (cases "map_of (f_values obj) a") (auto simp: map_of_eq_None_iff)
  then show ?thesis
    by (simp add: setAttributeValue_def setAttributeValue_map_of setAttributeValue_keys)
qed

lemma setColumns_ok:
  assumes "distinct (map snd cols)"
    and "\<forall>(c, n)\<in>set cols. 3 \<le> c \<and> c - 3 < length (fr_columns r) \<and>
            n \<in> set (map fst (f_values obj))"
  shows "\<exists>obj'. setColumns cols r obj = Inr obj' \<and>
           f_objId obj' = f_objId obj \<and> f_objLabel obj' = f_objLabel obj \<and>
           f_objComment obj' = f_objComment obj \<and> f_className obj' = f_className obj \<and>
           map fst (f_values obj') = map fst (f_values obj) \<and>
           (\<forall>(c, n)\<in>set cols. map_of (f_values obj') n = Some (fr_columns r ! (c - 3)))"
  using assms
proof (induction cols arbitrary: obj)
  case Nil
  then show ?case by simp
next
  case (Cons cn cols)
  obtain c n where cn: "cn = (c, n)" by (cases cn)
  have hd: "3 \<le> c" "c - 3 < length (fr_columns r)" "n \<in> set (map fst (f_values obj))"
    using Cons.prems(2) cn by auto
  have fresh: "n \<notin> snd ` set cols" using Cons.prems(1) cn by auto
  from setAttributeValue_ok [OF hd(3), of "fr_columns r ! (c - 3)"] obtain o1 where
    a: "setAttributeValue n (fr_columns r ! (c - 3)) obj = Inr o1"
    and k: "f_objId o1 = f_objId obj" "f_objLabel o1 = f_objLabel obj"
      "f_objComment o1 = f_objComment obj" "f_className o1 = f_className obj"
      "map fst (f_values o1) = map fst (f_values obj)"
    and vn: "map_of (f_values o1) n = Some (fr_columns r ! (c - 3))"
    by blast
  have pre1: "distinct (map snd cols)" using Cons.prems(1) by simp
  have pre2: "\<forall>(c, n)\<in>set cols. 3 \<le> c \<and> c - 3 < length (fr_columns r) \<and>
      n \<in> set (map fst (f_values o1))"
    using Cons.prems(2) k(5) by auto
  from Cons.IH [OF pre1 pre2] obtain obj' where
    r: "setColumns cols r o1 = Inr obj'"
    and k': "f_objId obj' = f_objId o1" "f_objLabel obj' = f_objLabel o1"
      "f_objComment obj' = f_objComment o1" "f_className obj' = f_className o1"
      "map fst (f_values obj') = map fst (f_values o1)"
    and vs: "\<forall>(c, n)\<in>set cols. map_of (f_values obj') n = Some (fr_columns r ! (c - 3))"
    by blast
  have keep: "\<And>obj2 k. setColumns cols r o1 = Inr obj2 \<Longrightarrow> k \<notin> snd ` set cols \<Longrightarrow>
      map_of (f_values obj2) k = map_of (f_values o1) k"
    using pre1 pre2
  proof (induction cols arbitrary: o1)
    case Nil
    then show ?case by simp
  next
    case (Cons dn cols)
    obtain d' n' where dn: "dn = (d', n')" by (cases dn)
    have h: "3 \<le> d'" "d' - 3 < length (fr_columns r)" "n' \<in> set (map fst (f_values o1))"
      using Cons.prems(4) dn by auto
    from setAttributeValue_ok [OF h(3), of "fr_columns r ! (d' - 3)"] obtain o2 where
      a2: "setAttributeValue n' (fr_columns r ! (d' - 3)) o1 = Inr o2"
      and k2: "map fst (f_values o2) = map fst (f_values o1)"
      and v2: "\<forall>k. k \<noteq> n' \<longrightarrow> map_of (f_values o2) k = map_of (f_values o1) k"
      by blast
    have r2: "setColumns cols r o2 = Inr obj2" using Cons.prems(1) h a2 by (simp add: dn)
    have "k \<noteq> n'" "k \<notin> snd ` set cols" using Cons.prems(2) dn by auto
    moreover have "distinct (map snd cols)" using Cons.prems(3) by simp
    moreover have "\<forall>(c, n)\<in>set cols. 3 \<le> c \<and> c - 3 < length (fr_columns r) \<and>
        n \<in> set (map fst (f_values o2))" using Cons.prems(4) k2 by auto
    ultimately show ?case using Cons.IH [OF r2] v2 by simp
  qed
  have res: "setColumns (cn # cols) r obj = Inr obj'"
    using hd a r by (simp add: cn)
  have head: "map_of (f_values obj') n = Some (fr_columns r ! (c - 3))"
    using keep [OF r fresh] vn by simp
  show ?case using res k k' head vs by (auto simp: cn)
qed

text \<open>An association list with pairwise different keys is given by its keys and
  what the keys are mapped to.\<close>

lemma alist_eq_zip:
  assumes "distinct (map fst xs)" "map fst xs = ks" "length vs = length ks"
    and "\<forall>i<length ks. map_of xs (ks ! i) = Some (vs ! i)"
  shows "xs = zip ks vs"
proof (rule nth_equalityI)
  show "length xs = length (zip ks vs)" using assms(2,3) by (metis length_map length_zip min.idem)
next
  fix i assume i: "i < length xs"
  then have ik: "i < length ks" using assms(2) by (metis length_map)
  have "xs ! i \<in> set xs" using i by simp
  then have "map_of xs (fst (xs ! i)) = Some (snd (xs ! i))"
    using assms(1) by (simp add: map_of_eq_Some_iff)
  moreover have "fst (xs ! i) = ks ! i" using assms(2) i by (metis nth_map)
  ultimately have "snd (xs ! i) = vs ! i" using assms(4) ik by simp
  then show "xs ! i = zip ks vs ! i"
    using \<open>fst (xs ! i) = ks ! i\<close> ik assms(3) by (simp add: prod_eq_iff)
qed

lemma hydrate_ok:
  assumes ok: "flat_ok m" and t: "objTemplate m = Some t"
    and r: "r \<in> set (objects (fdb m))"
  shows "hydrate (objColumns m) r (fheap m ! t) = Inr (row_object (fdb m) r)"
proof -
  let ?d = "fdb m"
  let ?ls = "attr_labels ?d"
  let ?T = "(fheap m ! t)\<lparr>f_objId := Some (fr_id r), f_objLabel := getStrValue (fr_label r),
            f_objComment := getStrValue (fr_comment r)\<rparr>"
  have d: "flat_db_ok ?d" using ok by (simp add: flat_ok_def)
  have n: "length ?ls = length (classes ?d) - 1" and dl: "distinct ?ls"
    using flat_db_ok_labels [OF d] by simp_all
  have ne: "classes ?d \<noteq> []" using d by (simp add: flat_db_ok_def)
  have lr: "length (fr_columns r) = length ?ls" using flat_db_ok_row [OF d r] .
  have e: "length (classes ?d) + 2 = 3 + length ?ls" using n ne by (cases "classes ?d") simp_all
  have "objColumns m = zip [3..<length (classes ?d) + 2] ?ls"
    using ok t by (simp add: flat_ok_def del: upt_Suc)
  then have cols: "objColumns m = zip [3..<3 + length ?ls] ?ls" unfolding e .
  have cn: "f_className (fheap m ! t) = class_name (hd (classes ?d))"
    and keys: "map fst (f_values (fheap m ! t)) = ?ls"
    using ok t by (simp_all add: flat_ok_def)
  have sndc: "map snd (objColumns m) = ?ls" unfolding cols by simp
  have dist: "distinct (map snd (objColumns m))" using dl sndc by simp
  have mem: "\<And>c k. (c, k) \<in> set (objColumns m) \<Longrightarrow>
      3 \<le> c \<and> c - 3 < length ?ls \<and> k = ?ls ! (c - 3)"
    unfolding cols by (auto simp: in_set_zip)
  have pre: "\<forall>(c, k)\<in>set (objColumns m). 3 \<le> c \<and> c - 3 < length (fr_columns r) \<and>
      k \<in> set (map fst (f_values ?T))"
  proof (clarify)
    fix c k assume ck: "(c, k) \<in> set (objColumns m)"
    from mem [OF ck] have a: "3 \<le> c" "c - 3 < length ?ls" "k = ?ls ! (c - 3)" by simp_all
    then have "k \<in> set ?ls" by simp
    then show "3 \<le> c \<and> c - 3 < length (fr_columns r) \<and> k \<in> set (map fst (f_values ?T))"
      using a lr keys by simp
  qed
  from setColumns_ok [OF dist pre] obtain obj where
    res: "setColumns (objColumns m) r ?T = Inr obj"
    and k: "f_objId obj = f_objId ?T" "f_objLabel obj = f_objLabel ?T"
      "f_objComment obj = f_objComment ?T" "f_className obj = f_className ?T"
      "map fst (f_values obj) = map fst (f_values ?T)"
    and vs: "\<forall>(c, n)\<in>set (objColumns m). map_of (f_values obj) n = Some (fr_columns r ! (c - 3))"
    by blast
  have kobj: "map fst (f_values obj) = ?ls" using k(5) keys by simp
  have all: "\<forall>i<length ?ls. map_of (f_values obj) (?ls ! i) = Some (fr_columns r ! i)"
  proof (intro allI impI)
    fix i assume i: "i < length ?ls"
    then have "(3 + i, ?ls ! i) \<in> set (objColumns m)"
      unfolding cols by (auto simp: in_set_zip intro!: exI [of _ i])
    then show "map_of (f_values obj) (?ls ! i) = Some (fr_columns r ! i)" using vs by auto
  qed
  have "distinct (map fst (f_values obj))" using kobj dl by simp
  from alist_eq_zip [OF this kobj lr all]
  have vals: "f_values obj = zip ?ls (fr_columns r)" .
  have "obj = row_object ?d r"
    using k(1,2,3,4) cn vals by (simp add: row_object_def)
  then show ?thesis using res by (simp add: hydrate_def)
qed


subsection \<open>Reading rows\<close>

lemma flat_step_refl: "flat_ok m \<Longrightarrow> flat_step m m"
  by (simp add: flat_step_def)

lemma flat_step_trans: "flat_step m m1 \<Longrightarrow> flat_step m1 m2 \<Longrightarrow> flat_step m m2"
  unfolding flat_step_def
  by (metis (no_types, lifting) le_trans less_le_trans)

lemma flat_step_keeps:
  "flat_step m m' \<Longrightarrow> c < length (fheap m) \<Longrightarrow> objTemplate m \<noteq> Some c \<Longrightarrow>
     fheap m' ! c = fheap m ! c \<and> objTemplate m' \<noteq> Some c"
  by (simp add: flat_step_def)

lemma row_object_ok:
  "flat_db_ok d \<Longrightarrow> r \<in> set (objects d) \<Longrightarrow>
     f_className (row_object d r) = class_name (hd (classes d)) \<and>
     map fst (f_values (row_object d r)) = attr_labels d"
  using flat_db_ok_row [of d r] by (simp add: row_object_def)

text \<open>The template is loaded when there is none yet.\<close>

lemma load_template:
  assumes ok: "flat_ok m"
  shows "\<exists>m1. (if objTemplate m = None then loadObjDict m else Inr m) = Inr m1 \<and>
           flat_step m m1 \<and> objTemplate m1 \<noteq> None"
proof (cases "objTemplate m = None")
  case True
  have d: "flat_db_ok (fdb m)" using ok by (simp add: flat_ok_def)
  from loadObjDict_ok [OF d True] obtain m1 where
    a: "loadObjDict m = Inr m1" "flat_ok m1" "fdb m1 = fdb m"
      "objTemplate m1 = Some (length (fheap m))" "length (fheap m1) = Suc (length (fheap m))"
      "\<forall>a<length (fheap m). fheap m1 ! a = fheap m ! a" by blast
  have "flat_step m m1" using a True by (simp add: flat_step_def)
  then show ?thesis using a(1,4) True by simp
next
  case False
  then show ?thesis using flat_step_refl [OF ok] by auto
qed

text \<open>\<^verbatim>\<open>__objFromRow\<close> succeeds for every row of the table, returns the template,
  which then is the object of the row, and touches no other object.\<close>

lemma flat_objFromRow_ok:
  assumes ok: "flat_ok m" and r: "r \<in> set (objects (fdb m))"
  shows "\<exists>t m'. flat_objFromRow r m = Inr (t, m') \<and> flat_step m m' \<and>
           objTemplate m' = Some t \<and> fheap m' ! t = row_object (fdb m) r"
proof -
  from load_template [OF ok] obtain m1 where
    l: "(if objTemplate m = None then loadObjDict m else Inr m) = Inr m1"
    and s1: "flat_step m m1" and tn: "objTemplate m1 \<noteq> None" by blast
  from tn obtain t where t: "objTemplate m1 = Some t" by auto
  have ok1: "flat_ok m1" and db1: "fdb m1 = fdb m" using s1 by (simp_all add: flat_step_def)
  have d: "flat_db_ok (fdb m)" using ok by (simp add: flat_ok_def)
  have lt: "t < length (fheap m1)" using ok1 t by (simp add: flat_ok_def)
  have r1: "r \<in> set (objects (fdb m1))" using r db1 by simp
  have h: "hydrate (objColumns m1) r (fheap m1 ! t) = Inr (row_object (fdb m) r)"
    using hydrate_ok [OF ok1 t r1] db1 by simp
  let ?m' = "m1\<lparr>fheap := (fheap m1)[t := row_object (fdb m) r]\<rparr>"
  have res: "flat_objFromRow r m = Inr (t, ?m')"
    using l t h by (simp add: flat_objFromRow_def)
  have ok': "flat_ok ?m'"
    using ok1 t lt row_object_ok [OF d r] db1 by (simp add: flat_ok_def)
  have s2: "flat_step m1 ?m'" using ok' t by (simp add: flat_step_def)
  have "fheap ?m' ! t = row_object (fdb m) r" using lt by simp
  then show ?thesis using res flat_step_trans [OF s1 s2] t
    by (intro exI [of _ t] exI [of _ ?m']) simp
qed

lemma clone_ok:
  assumes "flat_ok m" "objTemplate m = Some t"
  shows "flat_step m (snd (clone t m)) \<and> fst (clone t m) = length (fheap m) \<and>
         length (fheap (snd (clone t m))) = Suc (length (fheap m)) \<and>
         fheap (snd (clone t m)) ! (length (fheap m)) = fheap m ! t \<and>
         objTemplate (snd (clone t m)) = Some t"
  using assms by (auto simp: clone_def flat_step_def flat_ok_def nth_append)

text \<open>The list of the clones: one new object for every row that passes the filter,
  each the object of its row.\<close>

lemma cloneObjectsFromRows_ok:
  assumes "flat_ok m" "set objRows \<subseteq> set (objects (fdb m))"
  shows "\<exists>cs m'. cloneObjectsFromRows f objRows m = Inr (cs, m') \<and> flat_step m m' \<and>
           clones_of m (filter (passes f (fdb m)) objRows) cs m'"
  using assms
proof (induction objRows arbitrary: m)
  case Nil
  then show ?case by (simp add: flat_step_refl clones_of_def)
next
  case (Cons r rs)
  have r: "r \<in> set (objects (fdb m))" using Cons.prems(2) by simp
  from flat_objFromRow_ok [OF Cons.prems(1) r] obtain t m1 where
    o: "flat_objFromRow r m = Inr (t, m1)" and s1: "flat_step m m1"
    and t1: "objTemplate m1 = Some t" and h1: "fheap m1 ! t = row_object (fdb m) r"
    by blast
  have ok1: "flat_ok m1" and db1: "fdb m1 = fdb m" using s1 by (simp_all add: flat_step_def)
  have le1: "length (fheap m) \<le> length (fheap m1)" using s1 by (simp add: flat_step_def)
  have cond: "(case f of None \<Rightarrow> True | Some g \<Rightarrow> g (fheap m1 ! t)) = passes f (fdb m) r"
    by (cases f) (simp_all add: passes_def h1)
  show ?case
  proof (cases "passes f (fdb m) r")
    case True
    let ?c = "length (fheap m1)"
    let ?m2 = "snd (clone t m1)"
    note cl = clone_ok [OF ok1 t1]
    have s2: "flat_step m1 ?m2" and c_eq: "fst (clone t m1) = ?c"
      and len2: "length (fheap ?m2) = Suc ?c" and cont2: "fheap ?m2 ! ?c = fheap m1 ! t"
      and t2: "objTemplate ?m2 = Some t"
      using cl by blast+
    have ok2: "flat_ok ?m2" and db2: "fdb ?m2 = fdb m" using s2 db1 by (simp_all add: flat_step_def)
    have rs2: "set rs \<subseteq> set (objects (fdb ?m2))" using Cons.prems(2) db2 by simp
    from Cons.IH [OF ok2 rs2] obtain cs' m' where
      rec: "cloneObjectsFromRows f rs ?m2 = Inr (cs', m')" and s3: "flat_step ?m2 m'"
      and cl': "clones_of ?m2 (filter (passes f (fdb m)) rs) cs' m'"
      using db2 by auto
    have res: "cloneObjectsFromRows f (r # rs) m = Inr (?c # cs', m')"
      using o True rec c_eq cond by simp
    have s: "flat_step m m'" using flat_step_trans [OF flat_step_trans [OF s1 s2] s3] .
    have tlt: "t < ?c" using ok1 t1 by (simp add: flat_ok_def)
    have c_lt2: "?c < length (fheap ?m2)" using len2 by simp
    have c_not_t: "objTemplate ?m2 \<noteq> Some ?c" using t2 tlt by simp
    from flat_step_keeps [OF s3 c_lt2 c_not_t]
    have keep: "fheap m' ! ?c = fheap ?m2 ! ?c" "objTemplate m' \<noteq> Some ?c" by simp_all
    have c_lt: "?c < length (fheap m')" using s3 c_lt2 by (simp add: flat_step_def)
    have d': "distinct cs'"
      and fresh': "list_all (\<lambda>c. length (fheap ?m2) \<le> c \<and> c < length (fheap m')
                      \<and> objTemplate m' \<noteq> Some c) cs'"
      and hold': "map (\<lambda>c. fheap m' ! c) cs'
                    = map (row_object (fdb m)) (filter (passes f (fdb m)) rs)"
      using cl' db2 by (simp_all add: clones_of_def)
    have notin: "?c \<notin> set cs'" using fresh' len2 by (auto simp: list_all_iff)
    have d: "distinct (?c # cs')" using d' notin by simp
    have fresh: "list_all (\<lambda>c. length (fheap m) \<le> c \<and> c < length (fheap m')
                      \<and> objTemplate m' \<noteq> Some c) (?c # cs')"
      using fresh' le1 c_lt keep(2) len2 by (auto simp: list_all_iff)
    have hc: "fheap m' ! ?c = row_object (fdb m) r" using h1 keep(1) cont2 by simp
    have hold: "map (\<lambda>c. fheap m' ! c) (?c # cs')
                  = map (row_object (fdb m)) (filter (passes f (fdb m)) (r # rs))"
      using hold' hc True by simp
    have "clones_of m (filter (passes f (fdb m)) (r # rs)) (?c # cs') m'"
      unfolding clones_of_def using d fresh hold by blast
    then show ?thesis using res s by blast
  next
    case False
    have rs1: "set rs \<subseteq> set (objects (fdb m1))" using Cons.prems(2) db1 by simp
    from Cons.IH [OF ok1 rs1] obtain cs m' where
      rec: "cloneObjectsFromRows f rs m1 = Inr (cs, m')" and s3: "flat_step m1 m'"
      and cl': "clones_of m1 (filter (passes f (fdb m)) rs) cs m'"
      using db1 by auto
    have res: "cloneObjectsFromRows f (r # rs) m = Inr (cs, m')"
      using o False rec cond by simp
    have s: "flat_step m m'" using flat_step_trans [OF s1 s3] .
    have "clones_of m (filter (passes f (fdb m)) (r # rs)) cs m'"
      using cl' le1 db1 False unfolding clones_of_def by (auto simp: list_all_iff)
    then show ?thesis using res s by blast
  qed
qed

text \<open>A call of \<^verbatim>\<open>next\<close> of the generator skips the rows that do not pass the
  filter; at the first row that passes it yields the template, which then is the
  object of that row; when no row passes the iteration ends.\<close>

lemma iterObjectsFromRows_ok:
  assumes "flat_ok m" "set objRows \<subseteq> set (objects (fdb m))"
  shows "case dropWhile (\<lambda>r. \<not> passes f (fdb m) r) objRows of
           [] \<Rightarrow> \<exists>m'. iterObjectsFromRows f objRows m = Inr (None, m') \<and> flat_step m m'
         | r # rest \<Rightarrow>
             \<exists>t m'. iterObjectsFromRows f objRows m = Inr (Some (t, rest), m') \<and>
               flat_step m m' \<and> objTemplate m' = Some t \<and>
               fheap m' ! t = row_object (fdb m) r"
  using assms
proof (induction objRows arbitrary: m)
  case Nil
  then show ?case by (simp add: flat_step_refl)
next
  case (Cons r rs)
  have r: "r \<in> set (objects (fdb m))" using Cons.prems(2) by simp
  from flat_objFromRow_ok [OF Cons.prems(1) r] obtain t m1 where
    o: "flat_objFromRow r m = Inr (t, m1)" and s1: "flat_step m m1"
    and t1: "objTemplate m1 = Some t" and h1: "fheap m1 ! t = row_object (fdb m) r"
    by blast
  have ok1: "flat_ok m1" and db1: "fdb m1 = fdb m" using s1 by (simp_all add: flat_step_def)
  have cond: "(case f of None \<Rightarrow> True | Some g \<Rightarrow> g (fheap m1 ! t)) = passes f (fdb m) r"
    by (cases f) (simp_all add: passes_def h1)
  show ?case
  proof (cases "passes f (fdb m) r")
    case True
    have "iterObjectsFromRows f (r # rs) m = Inr (Some (t, rs), m1)"
      using o True cond by simp
    then show ?thesis using True s1 t1 h1 by simp
  next
    case False
    have step: "iterObjectsFromRows f (r # rs) m = iterObjectsFromRows f rs m1"
      using o False cond by simp
    have rs1: "set rs \<subseteq> set (objects (fdb m1))" using Cons.prems(2) db1 by simp
    note ih = Cons.IH [OF ok1 rs1, unfolded db1]
    have dw: "dropWhile (\<lambda>r. \<not> passes f (fdb m) r) (r # rs)
        = dropWhile (\<lambda>r. \<not> passes f (fdb m) r) rs" using False by simp
    show ?thesis
    proof (cases "dropWhile (\<lambda>r. \<not> passes f (fdb m) r) rs")
      case Nil
      from ih [unfolded Nil] obtain m' where
        a: "iterObjectsFromRows f rs m1 = Inr (None, m')" "flat_step m1 m'" by auto
      show ?thesis unfolding dw Nil step using a(1) flat_step_trans [OF s1 a(2)] by simp
    next
      case (Cons r' rest)
      from ih [unfolded Cons] obtain t' m' where
        a: "iterObjectsFromRows f rs m1 = Inr (Some (t', rest), m')" "flat_step m1 m'"
          "objTemplate m' = Some t'" "fheap m' ! t' = row_object (fdb m) r'" by auto
      show ?thesis unfolding dw Cons step using a(1,3,4) flat_step_trans [OF s1 a(2)] by simp
    qed
  qed
qed

lemma iterObjectsFromRows_first:
  assumes "flat_ok m" "r \<in> set (objects (fdb m))"
  shows "\<exists>t m'. iterObjectsFromRows None (r # rest) m = Inr (Some (t, rest), m') \<and>
           flat_step m m' \<and> objTemplate m' = Some t \<and> fheap m' ! t = row_object (fdb m) r"
proof -
  from flat_objFromRow_ok [OF assms] obtain t m1 where
    "flat_objFromRow r m = Inr (t, m1)" "flat_step m m1"
    "objTemplate m1 = Some t" "fheap m1 ! t = row_object (fdb m) r"
    by blast
  then show ?thesis by (intro exI [of _ t] exI [of _ m1]) simp
qed

lemma flat_selectById_ok:
  assumes "flat_ok m" "r \<in> set (objects (fdb m))"
  shows "\<exists>t m'. flat_selectById (fr_id r) m = Inr (Some t, m') \<and>
           flat_step m m' \<and> objTemplate m' = Some t \<and> fheap m' ! t = row_object (fdb m) r"
proof -
  have d: "flat_db_ok (fdb m)" using assms(1) by (simp add: flat_ok_def)
  from flat_objFromRow_ok [OF assms] obtain t m1 where
    "flat_objFromRow r m = Inr (t, m1)" "flat_step m m1"
    "objTemplate m1 = Some t" "fheap m1 ! t = row_object (fdb m) r"
    by blast
  then show ?thesis
    using flat_selectObjectById_found [OF d assms(2)]
    by (intro exI [of _ t] exI [of _ m1]) (simp add: flat_selectById_def)
qed

text \<open>Every \<^verbatim>\<open>selectById\<close> and every \<^verbatim>\<open>next\<close> that returns leaves a mapper that
  the one before steps to.\<close>

lemma flat_selectById_step:
  assumes "flat_ok m" "flat_selectById i m = Inr (res, m')"
  shows "flat_step m m'"
proof (cases "flat_selectObjectById i (fdb m)")
  case None
  then show ?thesis using assms by (simp add: flat_selectById_def flat_step_refl)
next
  case (Some r)
  have r: "r \<in> set (objects (fdb m))" using Some by (rule flat_selectObjectById_in)
  from flat_objFromRow_ok [OF assms(1) r] obtain t m1 where
    "flat_objFromRow r m = Inr (t, m1)" "flat_step m m1" by blast
  then show ?thesis using assms(2) Some by (simp add: flat_selectById_def)
qed

lemma iterObjectsFromRows_step:
  assumes "flat_ok m" "set objRows \<subseteq> set (objects (fdb m))"
    "iterObjectsFromRows f objRows m = Inr (res, m')"
  shows "flat_step m m'"
  using iterObjectsFromRows_ok [OF assms(1,2), of f] assms(3)
  by (cases "dropWhile (\<lambda>r. \<not> passes f (fdb m) r) objRows") auto


subsection \<open>Clones and the shared template\<close>

lemma clones_unchanged:
  assumes "clones_of m kept cs m'" "flat_step m' m''" "c \<in> set cs"
  shows "fheap m'' ! c = fheap m' ! c"
  using assms by (auto simp: clones_of_def list_all_iff flat_step_def)

lemma clones_later_reads:
  assumes ok': "flat_ok m'" and cl: "clones_of m kept cs m'"
  shows "(\<forall>i res m''. flat_selectById i m' = Inr (res, m'') \<longrightarrow>
            (\<forall>c\<in>set cs. fheap m'' ! c = fheap m' ! c)) \<and>
         (\<forall>g rows res m''. set rows \<subseteq> set (objects (fdb m')) \<and>
              iterObjectsFromRows g rows m' = Inr (res, m'') \<longrightarrow>
            (\<forall>c\<in>set cs. fheap m'' ! c = fheap m' ! c))"
  using flat_selectById_step [OF ok'] iterObjectsFromRows_step [OF ok'] clones_unchanged [OF cl]
  by blast

lemma row_object_id: "fr_id r1 \<noteq> fr_id r2 \<Longrightarrow> row_object d r2 \<noteq> row_object d r1"
  by (auto simp: row_object_def)

text \<open>
  C8 (flat mapper read aliasing). For a mapper that was just opened or has read
  before, over a database as \<^verbatim>\<open>createTables\<close> leaves it: \<^verbatim>\<open>selectBy\<close> and
  \<^verbatim>\<open>selectAll\<close> with \<^verbatim>\<open>iterate=False\<close> return a list of clones, one for every
  row of the statement that passes the filter (for every row without filter), in
  the order of the rows: pairwise different new objects, none of them the
  template, each the object of its row, with the id, the label, the comment and
  the attribute values of the row; writing to one of them leaves the others as
  they are, and so does every later read. With \<^verbatim>\<open>iterate=True\<close> a generator is
  returned and no row is read yet. Whatever the generator yields is the one
  template object, and so is what \<^verbatim>\<open>selectById\<close> returns for the id of a row:
  when the generator produces its next object, or \<^verbatim>\<open>selectById\<close> is called
  again, the object returned before is the object returned now, and is the object
  of the new row and no longer of the one before. \<^verbatim>\<open>selectById\<close> returns
  \<^verbatim>\<open>None\<close> for an id that no row has. \<^verbatim>\<open>selectBy\<close> fails when SQLite refuses
  the statement, as it does without keyword.
\<close>

theorem flat_select_aliasing:
  assumes ok: "flat_ok m"
  shows
  "(flat_selectObjectsBy args (fdb m) = Inr objRows \<longrightarrow>
      (\<exists>cs m'. flat_selectBy args False f m = Inr (ObjectList cs, m') \<and>
         flat_ok m' \<and> fdb m' = fdb m \<and>
         clones_of m (filter (passes f (fdb m)) objRows) cs m' \<and>
         (\<forall>c\<in>set cs. \<forall>d\<in>set cs. \<forall>x. c \<noteq> d \<longrightarrow> (fheap m')[c := x] ! d = fheap m' ! d) \<and>
         (\<forall>i res m''. flat_selectById i m' = Inr (res, m'') \<longrightarrow>
            (\<forall>c\<in>set cs. fheap m'' ! c = fheap m' ! c)) \<and>
         (\<forall>g rows res m''. set rows \<subseteq> set (objects (fdb m')) \<and>
              iterObjectsFromRows g rows m' = Inr (res, m'') \<longrightarrow>
            (\<forall>c\<in>set cs. fheap m'' ! c = fheap m' ! c))))
   \<and> (\<exists>cs m'. flat_selectAll False f m = Inr (ObjectList cs, m') \<and>
         flat_ok m' \<and> fdb m' = fdb m \<and>
         clones_of m (filter (passes f (fdb m)) (flat_selectAllRows (fdb m))) cs m' \<and>
         (\<forall>c\<in>set cs. \<forall>d\<in>set cs. \<forall>x. c \<noteq> d \<longrightarrow> (fheap m')[c := x] ! d = fheap m' ! d) \<and>
         (\<forall>i res m''. flat_selectById i m' = Inr (res, m'') \<longrightarrow>
            (\<forall>c\<in>set cs. fheap m'' ! c = fheap m' ! c)) \<and>
         (\<forall>g rows res m''. set rows \<subseteq> set (objects (fdb m')) \<and>
              iterObjectsFromRows g rows m' = Inr (res, m'') \<longrightarrow>
            (\<forall>c\<in>set cs. fheap m'' ! c = fheap m' ! c)))
   \<and> (flat_selectObjectsBy args (fdb m) = Inr objRows \<longrightarrow>
        flat_selectBy args True f m = Inr (Generator objRows, m))
   \<and> (\<exists>m0. flat_selectAll True f m = Inr (Generator (flat_selectAllRows (fdb m)), m0) \<and>
        flat_ok m0 \<and> fdb m0 = fdb m)
   \<and> (set objRows \<subseteq> set (objects (fdb m)) \<longrightarrow>
        (case dropWhile (\<lambda>r. \<not> passes f (fdb m) r) objRows of
           [] \<Rightarrow>
             \<exists>m1. iterObjectsFromRows f objRows m = Inr (None, m1) \<and>
               flat_ok m1 \<and> fdb m1 = fdb m
         | r # rest \<Rightarrow>
             \<exists>t m1. iterObjectsFromRows f objRows m = Inr (Some (t, rest), m1) \<and>
               flat_ok m1 \<and> fdb m1 = fdb m \<and> objTemplate m1 = Some t \<and>
               (objTemplate m = None \<or> objTemplate m = Some t) \<and>
               fheap m1 ! t = row_object (fdb m) r))
   \<and> (r1 \<in> set (objects (fdb m)) \<and> r2 \<in> set (objects (fdb m)) \<longrightarrow>
        (\<exists>t m1 m2.
           iterObjectsFromRows None (r1 # r2 # rest) m = Inr (Some (t, r2 # rest), m1) \<and>
           objTemplate m1 = Some t \<and> fheap m1 ! t = row_object (fdb m) r1 \<and>
           iterObjectsFromRows None (r2 # rest) m1 = Inr (Some (t, rest), m2) \<and>
           objTemplate m2 = Some t \<and> fheap m2 ! t = row_object (fdb m) r2 \<and>
           (fr_id r1 \<noteq> fr_id r2 \<longrightarrow> fheap m2 ! t \<noteq> row_object (fdb m) r1)))
   \<and> (r1 \<in> set (objects (fdb m)) \<and> r2 \<in> set (objects (fdb m)) \<longrightarrow>
        (\<exists>t m1 m2.
           flat_selectById (fr_id r1) m = Inr (Some t, m1) \<and>
           objTemplate m1 = Some t \<and> fheap m1 ! t = row_object (fdb m) r1 \<and>
           flat_selectById (fr_id r2) m1 = Inr (Some t, m2) \<and>
           objTemplate m2 = Some t \<and> fheap m2 ! t = row_object (fdb m) r2 \<and>
           (fr_id r1 \<noteq> fr_id r2 \<longrightarrow> fheap m2 ! t \<noteq> row_object (fdb m) r1)))
   \<and> (i \<notin> fr_id ` set (objects (fdb m)) \<longrightarrow> flat_selectById i m = Inr (None, m))
   \<and> (flat_selectObjectsBy args (fdb m) = Inl e \<longrightarrow> flat_selectBy args iterate f m = Inl e)
   \<and> flat_selectBy [] iterate f m = Inl OperationalError"
proof (intro conjI impI)
  assume q: "flat_selectObjectsBy args (fdb m) = Inr objRows"
  have sub: "set objRows \<subseteq> set (objects (fdb m))" using q by (rule flat_selectObjectsBy_in)
  from cloneObjectsFromRows_ok [OF ok sub, of f] obtain cs m' where
    c: "cloneObjectsFromRows f objRows m = Inr (cs, m')" and s: "flat_step m m'"
    and cl: "clones_of m (filter (passes f (fdb m)) objRows) cs m'"
    by blast
  have ok': "flat_ok m'" and db': "fdb m' = fdb m" using s by (simp_all add: flat_step_def)
  have res: "flat_selectBy args False f m = Inr (ObjectList cs, m')"
    using q c by (simp add: flat_selectBy_def flat_objectsFromRows_def)
  note later = clones_later_reads [OF ok' cl]
  have indep: "\<forall>c\<in>set cs. \<forall>d\<in>set cs. \<forall>x. c \<noteq> d \<longrightarrow> (fheap m')[c := x] ! d = fheap m' ! d"
    by simp
  show "\<exists>cs m'. flat_selectBy args False f m = Inr (ObjectList cs, m') \<and>
         flat_ok m' \<and> fdb m' = fdb m \<and>
         clones_of m (filter (passes f (fdb m)) objRows) cs m' \<and>
         (\<forall>c\<in>set cs. \<forall>d\<in>set cs. \<forall>x. c \<noteq> d \<longrightarrow> (fheap m')[c := x] ! d = fheap m' ! d) \<and>
         (\<forall>i res m''. flat_selectById i m' = Inr (res, m'') \<longrightarrow>
            (\<forall>c\<in>set cs. fheap m'' ! c = fheap m' ! c)) \<and>
         (\<forall>g rows res m''. set rows \<subseteq> set (objects (fdb m')) \<and>
              iterObjectsFromRows g rows m' = Inr (res, m'') \<longrightarrow>
            (\<forall>c\<in>set cs. fheap m'' ! c = fheap m' ! c))"
    using res ok' db' cl indep later [THEN conjunct1] later [THEN conjunct2]
    by (intro exI [of _ cs] exI [of _ m'] conjI) assumption+
next
  from load_template [OF ok] obtain m0 where
    l: "(if objTemplate m = None then loadObjDict m else Inr m) = Inr m0"
    and s0: "flat_step m m0" by blast
  have ok0: "flat_ok m0" and db0: "fdb m0 = fdb m"
    and le0: "length (fheap m) \<le> length (fheap m0)" using s0 by (simp_all add: flat_step_def)
  have sub: "set (flat_selectAllRows (fdb m)) \<subseteq> set (objects (fdb m0))"
    using flat_selectAllRows_in db0 by simp
  from cloneObjectsFromRows_ok [OF ok0 sub, of f] obtain cs m' where
    c: "cloneObjectsFromRows f (flat_selectAllRows (fdb m)) m0 = Inr (cs, m')"
    and s: "flat_step m0 m'"
    and cl0: "clones_of m0 (filter (passes f (fdb m)) (flat_selectAllRows (fdb m))) cs m'"
    using db0 by auto
  have ok': "flat_ok m'" and db': "fdb m' = fdb m" using s db0 by (simp_all add: flat_step_def)
  have cl: "clones_of m (filter (passes f (fdb m)) (flat_selectAllRows (fdb m))) cs m'"
    using cl0 le0 db0 unfolding clones_of_def by (auto simp: list_all_iff)
  have res: "flat_selectAll False f m = Inr (ObjectList cs, m')"
    using l c db0 by (simp add: flat_selectAll_def flat_objectsFromRows_def)
  note later = clones_later_reads [OF ok' cl]
  have indep: "\<forall>c\<in>set cs. \<forall>d\<in>set cs. \<forall>x. c \<noteq> d \<longrightarrow> (fheap m')[c := x] ! d = fheap m' ! d"
    by simp
  show "\<exists>cs m'. flat_selectAll False f m = Inr (ObjectList cs, m') \<and>
         flat_ok m' \<and> fdb m' = fdb m \<and>
         clones_of m (filter (passes f (fdb m)) (flat_selectAllRows (fdb m))) cs m' \<and>
         (\<forall>c\<in>set cs. \<forall>d\<in>set cs. \<forall>x. c \<noteq> d \<longrightarrow> (fheap m')[c := x] ! d = fheap m' ! d) \<and>
         (\<forall>i res m''. flat_selectById i m' = Inr (res, m'') \<longrightarrow>
            (\<forall>c\<in>set cs. fheap m'' ! c = fheap m' ! c)) \<and>
         (\<forall>g rows res m''. set rows \<subseteq> set (objects (fdb m')) \<and>
              iterObjectsFromRows g rows m' = Inr (res, m'') \<longrightarrow>
            (\<forall>c\<in>set cs. fheap m'' ! c = fheap m' ! c))"
    using res ok' db' cl indep later [THEN conjunct1] later [THEN conjunct2]
    by (intro exI [of _ cs] exI [of _ m'] conjI) assumption+
  have "flat_selectAll True f m = Inr (Generator (flat_selectAllRows (fdb m)), m0)"
    using l db0 by (simp add: flat_selectAll_def flat_objectsFromRows_def)
  then show "\<exists>m0. flat_selectAll True f m = Inr (Generator (flat_selectAllRows (fdb m)), m0) \<and>
        flat_ok m0 \<and> fdb m0 = fdb m"
    using ok0 db0 by blast
next
  assume "flat_selectObjectsBy args (fdb m) = Inr objRows"
  then show "flat_selectBy args True f m = Inr (Generator objRows, m)"
    by (simp add: flat_selectBy_def flat_objectsFromRows_def)
next
  assume sub: "set objRows \<subseteq> set (objects (fdb m))"
  note th = iterObjectsFromRows_ok [OF ok sub, of f]
  show "case dropWhile (\<lambda>r. \<not> passes f (fdb m) r) objRows of
           [] \<Rightarrow>
             \<exists>m1. iterObjectsFromRows f objRows m = Inr (None, m1) \<and>
               flat_ok m1 \<and> fdb m1 = fdb m
         | r # rest \<Rightarrow>
             \<exists>t m1. iterObjectsFromRows f objRows m = Inr (Some (t, rest), m1) \<and>
               flat_ok m1 \<and> fdb m1 = fdb m \<and> objTemplate m1 = Some t \<and>
               (objTemplate m = None \<or> objTemplate m = Some t) \<and>
               fheap m1 ! t = row_object (fdb m) r"
  proof (cases "dropWhile (\<lambda>r. \<not> passes f (fdb m) r) objRows")
    case Nil
    from th [unfolded Nil] obtain m1 where
      "iterObjectsFromRows f objRows m = Inr (None, m1)" "flat_step m m1" by auto
    then show ?thesis unfolding Nil by (auto simp: flat_step_def)
  next
    case (Cons r rest)
    from th [unfolded Cons] obtain t m1 where
      a: "iterObjectsFromRows f objRows m = Inr (Some (t, rest), m1)" "flat_step m m1"
        "objTemplate m1 = Some t" "fheap m1 ! t = row_object (fdb m) r" by auto
    have "objTemplate m = None \<or> objTemplate m = Some t"
      using a(2,3) by (auto simp: flat_step_def)
    moreover have "flat_ok m1" "fdb m1 = fdb m" using a(2) by (simp_all add: flat_step_def)
    ultimately show ?thesis unfolding Cons using a(1,3,4) by simp
  qed
next
  assume r: "r1 \<in> set (objects (fdb m)) \<and> r2 \<in> set (objects (fdb m))"
  from iterObjectsFromRows_first [OF ok, of r1 "r2 # rest"] r obtain t m1 where
    a: "iterObjectsFromRows None (r1 # r2 # rest) m = Inr (Some (t, r2 # rest), m1)"
      "flat_step m m1" "objTemplate m1 = Some t" "fheap m1 ! t = row_object (fdb m) r1"
    by blast
  have ok1: "flat_ok m1" and db1: "fdb m1 = fdb m" using a(2) by (simp_all add: flat_step_def)
  from iterObjectsFromRows_first [OF ok1, of r2 rest] r db1 obtain t' m2 where
    b: "iterObjectsFromRows None (r2 # rest) m1 = Inr (Some (t', rest), m2)"
      "flat_step m1 m2" "objTemplate m2 = Some t'" "fheap m2 ! t' = row_object (fdb m) r2"
    by auto
  have e: "t' = t" using a(3) b(2,3) by (simp add: flat_step_def)
  show "\<exists>t m1 m2.
           iterObjectsFromRows None (r1 # r2 # rest) m = Inr (Some (t, r2 # rest), m1) \<and>
           objTemplate m1 = Some t \<and> fheap m1 ! t = row_object (fdb m) r1 \<and>
           iterObjectsFromRows None (r2 # rest) m1 = Inr (Some (t, rest), m2) \<and>
           objTemplate m2 = Some t \<and> fheap m2 ! t = row_object (fdb m) r2 \<and>
           (fr_id r1 \<noteq> fr_id r2 \<longrightarrow> fheap m2 ! t \<noteq> row_object (fdb m) r1)"
    using a b row_object_id [of r1 r2 "fdb m"] unfolding e
    by (intro exI [of _ t] exI [of _ m1] exI [of _ m2]) simp
next
  assume r: "r1 \<in> set (objects (fdb m)) \<and> r2 \<in> set (objects (fdb m))"
  from flat_selectById_ok [OF ok, of r1] r obtain t m1 where
    a: "flat_selectById (fr_id r1) m = Inr (Some t, m1)"
      "flat_step m m1" "objTemplate m1 = Some t" "fheap m1 ! t = row_object (fdb m) r1"
    by blast
  have ok1: "flat_ok m1" and db1: "fdb m1 = fdb m" using a(2) by (simp_all add: flat_step_def)
  from flat_selectById_ok [OF ok1, of r2] r db1 obtain t' m2 where
    b: "flat_selectById (fr_id r2) m1 = Inr (Some t', m2)"
      "flat_step m1 m2" "objTemplate m2 = Some t'" "fheap m2 ! t' = row_object (fdb m) r2"
    by auto
  have e: "t' = t" using a(3) b(2,3) by (simp add: flat_step_def)
  show "\<exists>t m1 m2.
           flat_selectById (fr_id r1) m = Inr (Some t, m1) \<and>
           objTemplate m1 = Some t \<and> fheap m1 ! t = row_object (fdb m) r1 \<and>
           flat_selectById (fr_id r2) m1 = Inr (Some t, m2) \<and>
           objTemplate m2 = Some t \<and> fheap m2 ! t = row_object (fdb m) r2 \<and>
           (fr_id r1 \<noteq> fr_id r2 \<longrightarrow> fheap m2 ! t \<noteq> row_object (fdb m) r1)"
    using a b row_object_id [of r1 r2 "fdb m"] unfolding e
    by (intro exI [of _ t] exI [of _ m1] exI [of _ m2]) simp
next
  assume "i \<notin> fr_id ` set (objects (fdb m))"
  then show "flat_selectById i m = Inr (None, m)"
    by (simp add: flat_selectById_def flat_selectObjectById_none)
next
  assume "flat_selectObjectsBy args (fdb m) = Inl e"
  then show "flat_selectBy args iterate f m = Inl e" by (simp add: flat_selectBy_def)
next
  show "flat_selectBy [] iterate f m = Inl OperationalError"
    by (simp add: flat_selectBy_def flat_selectObjectsBy_def)
qed


subsection \<open>The example set\<close>

lemma example_flat_rows:
  "flat_selectObjectsBy [(''label'', Some ''good'')] (fdb example_flat)
     = Inr [example_row 1, example_row 3]"
  "flat_selectObjectsBy [(''c00'', Some ''good'')] (fdb example_flat) = Inl OperationalError"
  "flat_selectObjectsBy [(''RowId'', Some ''2''), (''C01'', Some ''b.mrc'')] (fdb example_flat)
     = Inr [example_row 2]"
  "flat_selectAllRows (fdb example_flat) = [example_row 1, example_row 2, example_row 3]"
  "objects (fdb example_flat) = [example_row 1, example_row 2, example_row 3]"
  "fr_id (example_row 1) = 1" "fr_id (example_row 2) = 2" "fr_id (example_row 3) = 3"
  by code_simp+

lemma example_flat_objects:
  "row_object (fdb example_flat) (example_row 1)
     = \<lparr>f_objId = Some 1, f_objLabel = ''good'', f_objComment = [],
        f_className = ''Micrograph'', f_values = [(''_filename'', Some ''a.mrc'')]\<rparr>"
  "row_object (fdb example_flat) (example_row 2)
     = \<lparr>f_objId = Some 2, f_objLabel = ''bad'', f_objComment = [],
        f_className = ''Micrograph'', f_values = [(''_filename'', Some ''b.mrc'')]\<rparr>"
  "row_object (fdb example_flat) (example_row 3)
     = \<lparr>f_objId = Some 3, f_objLabel = ''good'', f_objComment = [],
        f_className = ''Micrograph'', f_values = [(''_filename'', Some ''c.mrc'')]\<rparr>"
  by code_simp+

lemma example_flat_selectBy:
  "map_sum id fst (flat_selectBy [(''label'', Some ''good'')] False None example_flat)
     = Inr (ObjectList [1, 2])"
  by code_simp

lemma example_flat_selectAll:
  "map_sum id fst (flat_selectAll False None example_flat) = Inr (ObjectList [1, 2, 3])"
  "map_sum id fst (flat_selectAll False (Some (\<lambda>obj. f_objLabel obj = ''bad'')) example_flat)
     = Inr (ObjectList [1])"
  by code_simp+

lemma example_flat_filter:
  "filter (passes None (fdb example_flat)) [example_row 1, example_row 3]
     = [example_row 1, example_row 3]"
  "filter (passes None (fdb example_flat)) [example_row 1, example_row 2, example_row 3]
     = [example_row 1, example_row 2, example_row 3]"
  "filter (passes (Some (\<lambda>obj. f_objLabel obj = ''bad'')) (fdb example_flat))
       [example_row 1, example_row 2, example_row 3] = [example_row 2]"
  "dropWhile (\<lambda>r. \<not> passes (Some (\<lambda>obj. f_objLabel obj = ''bad'')) (fdb example_flat) r)
       [example_row 1, example_row 2, example_row 3] = [example_row 2, example_row 3]"
  by code_simp+

theorem flat_select_aliasing_witness:
  "flat_ok example_flat
   \<and> (\<exists>m'. flat_selectBy [(''label'', Some ''good'')] False None example_flat
              = Inr (ObjectList [1, 2], m') \<and>
          objTemplate m' \<noteq> Some 1 \<and> objTemplate m' \<noteq> Some 2 \<and>
          fheap m' ! 1 = \<lparr>f_objId = Some 1, f_objLabel = ''good'', f_objComment = [],
              f_className = ''Micrograph'', f_values = [(''_filename'', Some ''a.mrc'')]\<rparr> \<and>
          fheap m' ! 2 = \<lparr>f_objId = Some 3, f_objLabel = ''good'', f_objComment = [],
              f_className = ''Micrograph'', f_values = [(''_filename'', Some ''c.mrc'')]\<rparr>)
   \<and> (\<exists>m'. flat_selectAll False None example_flat = Inr (ObjectList [1, 2, 3], m') \<and>
          map (\<lambda>c. f_objId (fheap m' ! c)) [1, 2, 3] = [Some 1, Some 2, Some 3])
   \<and> (\<exists>m'. flat_selectAll False (Some (\<lambda>obj. f_objLabel obj = ''bad'')) example_flat
              = Inr (ObjectList [1], m') \<and>
          fheap m' ! 1 = \<lparr>f_objId = Some 2, f_objLabel = ''bad'', f_objComment = [],
              f_className = ''Micrograph'', f_values = [(''_filename'', Some ''b.mrc'')]\<rparr>)
   \<and> flat_selectBy [(''label'', Some ''good'')] True None example_flat
        = Inr (Generator [example_row 1, example_row 3], example_flat)
   \<and> flat_selectBy [(''RowId'', Some ''2''), (''C01'', Some ''b.mrc'')] True None example_flat
        = Inr (Generator [example_row 2], example_flat)
   \<and> (\<exists>m0. flat_selectAll True None example_flat
              = Inr (Generator [example_row 1, example_row 2, example_row 3], m0))
   \<and> (\<exists>t m1. iterObjectsFromRows (Some (\<lambda>obj. f_objLabel obj = ''bad''))
              [example_row 1, example_row 2, example_row 3] example_flat
              = Inr (Some (t, [example_row 3]), m1) \<and>
          objTemplate m1 = Some t \<and> f_objId (fheap m1 ! t) = Some 2)
   \<and> (\<exists>t m1 m2.
          iterObjectsFromRows None [example_row 1, example_row 2, example_row 3] example_flat
            = Inr (Some (t, [example_row 2, example_row 3]), m1) \<and>
          f_values (fheap m1 ! t) = [(''_filename'', Some ''a.mrc'')] \<and>
          iterObjectsFromRows None [example_row 2, example_row 3] m1
            = Inr (Some (t, [example_row 3]), m2) \<and>
          f_values (fheap m2 ! t) = [(''_filename'', Some ''b.mrc'')])
   \<and> (\<exists>t m1 m2.
          flat_selectById 1 example_flat = Inr (Some t, m1) \<and>
          f_values (fheap m1 ! t) = [(''_filename'', Some ''a.mrc'')] \<and>
          flat_selectById 3 m1 = Inr (Some t, m2) \<and>
          f_values (fheap m2 ! t) = [(''_filename'', Some ''c.mrc'')])
   \<and> flat_selectById 7 example_flat = Inr (None, example_flat)
   \<and> flat_selectBy [(''c00'', Some ''good'')] False None example_flat = Inl OperationalError
   \<and> flat_selectBy [] False None example_flat = Inl OperationalError"
proof -
  let ?d = "fdb example_flat"
  let ?good = "[(''label'', Some ''good'')]"
  let ?all = "[example_row 1, example_row 2, example_row 3]"
  let ?bad = "Some (\<lambda>obj. f_objLabel obj = ''bad'')"
  have ok: "flat_ok example_flat"
    by (simp add: flat_ok_def flat_db_ok_def example_flat_def)
  note rows = example_flat_rows
  note objs = example_flat_objects
  note filt = example_flat_filter
  have c1: "\<exists>m'. flat_selectBy ?good False None example_flat = Inr (ObjectList [1, 2], m') \<and>
          objTemplate m' \<noteq> Some 1 \<and> objTemplate m' \<noteq> Some 2 \<and>
          fheap m' ! 1 = \<lparr>f_objId = Some 1, f_objLabel = ''good'', f_objComment = [],
              f_className = ''Micrograph'', f_values = [(''_filename'', Some ''a.mrc'')]\<rparr> \<and>
          fheap m' ! 2 = \<lparr>f_objId = Some 3, f_objLabel = ''good'', f_objComment = [],
              f_className = ''Micrograph'', f_values = [(''_filename'', Some ''c.mrc'')]\<rparr>"
  proof -
    from flat_select_aliasing [OF ok, where args = ?good
        and objRows = "[example_row 1, example_row 3]" and f = None,
        THEN conjunct1, rule_format, OF rows(1)]
    obtain cs m' where
      r: "flat_selectBy ?good False None example_flat = Inr (ObjectList cs, m')"
      and cl: "clones_of example_flat
                 (filter (passes None ?d) [example_row 1, example_row 3]) cs m'"
      by (elim exE conjE) (rule that, assumption+)
    have cs: "cs = [1, 2]" using example_flat_selectBy unfolding r by simp
    have "objTemplate m' \<noteq> Some 1 \<and> objTemplate m' \<noteq> Some 2 \<and>
          fheap m' ! 1 = row_object ?d (example_row 1) \<and>
          fheap m' ! 2 = row_object ?d (example_row 3)"
      using cl unfolding cs filt clones_of_def by simp
    then show ?thesis using r unfolding cs objs by (intro exI [of _ m']) simp
  qed
  have c2: "\<exists>m'. flat_selectAll False None example_flat = Inr (ObjectList [1, 2, 3], m') \<and>
          map (\<lambda>c. f_objId (fheap m' ! c)) [1, 2, 3] = [Some 1, Some 2, Some 3]"
  proof -
    from flat_select_aliasing [OF ok, where f = None, THEN conjunct2, THEN conjunct1]
    obtain cs m' where
      r: "flat_selectAll False None example_flat = Inr (ObjectList cs, m')"
      and cl: "clones_of example_flat (filter (passes None ?d) (flat_selectAllRows ?d)) cs m'"
      by (elim exE conjE) (rule that, assumption+)
    have cs: "cs = [1, 2, 3]" using example_flat_selectAll(1) unfolding r by simp
    have "map (\<lambda>c. fheap m' ! c) [1, 2, 3] = map (row_object ?d) ?all"
      using cl unfolding cs rows(4) filt clones_of_def by simp
    then have "map (\<lambda>c. f_objId (fheap m' ! c)) [1, 2, 3] = [Some 1, Some 2, Some 3]"
      unfolding list.map objs by simp
    then show ?thesis using r unfolding cs by (intro exI [of _ m']) simp
  qed
  have c2': "\<exists>m'. flat_selectAll False ?bad example_flat = Inr (ObjectList [1], m') \<and>
          fheap m' ! 1 = \<lparr>f_objId = Some 2, f_objLabel = ''bad'', f_objComment = [],
              f_className = ''Micrograph'', f_values = [(''_filename'', Some ''b.mrc'')]\<rparr>"
  proof -
    from flat_select_aliasing [OF ok, where f = ?bad, THEN conjunct2, THEN conjunct1]
    obtain cs m' where
      r: "flat_selectAll False ?bad example_flat = Inr (ObjectList cs, m')"
      and cl: "clones_of example_flat (filter (passes ?bad ?d) (flat_selectAllRows ?d)) cs m'"
      by (elim exE conjE) (rule that, assumption+)
    have cs: "cs = [1]" using example_flat_selectAll(2) unfolding r by simp
    have "fheap m' ! 1 = row_object ?d (example_row 2)"
      using cl unfolding cs rows(4) filt clones_of_def by simp
    then show ?thesis using r unfolding cs objs by (intro exI [of _ m']) simp
  qed
  have c3: "flat_selectBy ?good True None example_flat
        = Inr (Generator [example_row 1, example_row 3], example_flat)"
    using flat_select_aliasing [OF ok, where args = ?good
        and objRows = "[example_row 1, example_row 3]" and f = None,
        THEN conjunct2, THEN conjunct2, THEN conjunct1, rule_format, OF rows(1)] .
  have c3': "flat_selectBy [(''RowId'', Some ''2''), (''C01'', Some ''b.mrc'')] True None
        example_flat = Inr (Generator [example_row 2], example_flat)"
    using flat_select_aliasing [OF ok,
        where args = "[(''RowId'', Some ''2''), (''C01'', Some ''b.mrc'')]"
        and objRows = "[example_row 2]" and f = None,
        THEN conjunct2, THEN conjunct2, THEN conjunct1, rule_format, OF rows(3)] .
  have c4: "\<exists>m0. flat_selectAll True None example_flat = Inr (Generator ?all, m0)"
  proof -
    from flat_select_aliasing [OF ok, where f = None,
        THEN conjunct2, THEN conjunct2, THEN conjunct2, THEN conjunct1]
    obtain m0 where "flat_selectAll True None example_flat
        = Inr (Generator (flat_selectAllRows ?d), m0)"
      by (elim exE conjE) (rule that, assumption+)
    then show ?thesis unfolding rows(4) by (intro exI [of _ m0])
  qed
  have c5: "\<exists>t m1. iterObjectsFromRows ?bad ?all example_flat
              = Inr (Some (t, [example_row 3]), m1) \<and>
          objTemplate m1 = Some t \<and> f_objId (fheap m1 ! t) = Some 2"
  proof -
    have sub: "set ?all \<subseteq> set (objects ?d)" unfolding rows(5) by simp
    from flat_select_aliasing [OF ok, where f = ?bad and objRows = ?all,
        THEN conjunct2, THEN conjunct2, THEN conjunct2, THEN conjunct2, THEN conjunct1,
        rule_format, OF sub, unfolded filt list.case]
    obtain t m1 where
      "iterObjectsFromRows ?bad ?all example_flat = Inr (Some (t, [example_row 3]), m1)"
      "objTemplate m1 = Some t" "fheap m1 ! t = row_object ?d (example_row 2)"
      by (elim exE conjE) (rule that, assumption+)
    then show ?thesis unfolding objs by (intro exI [of _ t] exI [of _ m1]) simp
  qed
  have mem: "example_row 1 \<in> set (objects ?d) \<and> example_row 2 \<in> set (objects ?d)"
    "example_row 1 \<in> set (objects ?d) \<and> example_row 3 \<in> set (objects ?d)"
    unfolding rows(5) by simp_all
  have c6: "\<exists>t m1 m2.
          iterObjectsFromRows None ?all example_flat
            = Inr (Some (t, [example_row 2, example_row 3]), m1) \<and>
          f_values (fheap m1 ! t) = [(''_filename'', Some ''a.mrc'')] \<and>
          iterObjectsFromRows None [example_row 2, example_row 3] m1
            = Inr (Some (t, [example_row 3]), m2) \<and>
          f_values (fheap m2 ! t) = [(''_filename'', Some ''b.mrc'')]"
  proof -
    from flat_select_aliasing [OF ok, where ?r1.0 = "example_row 1" and ?r2.0 = "example_row 2"
        and rest = "[example_row 3]",
        THEN conjunct2, THEN conjunct2, THEN conjunct2, THEN conjunct2, THEN conjunct2,
        THEN conjunct1, rule_format, OF mem(1)]
    obtain t m1 m2 where
      "iterObjectsFromRows None ?all example_flat
         = Inr (Some (t, [example_row 2, example_row 3]), m1)"
      "fheap m1 ! t = row_object ?d (example_row 1)"
      "iterObjectsFromRows None [example_row 2, example_row 3] m1
         = Inr (Some (t, [example_row 3]), m2)"
      "fheap m2 ! t = row_object ?d (example_row 2)"
      by (elim exE conjE) (rule that, assumption+)
    then show ?thesis unfolding objs
      by (intro exI [of _ t] exI [of _ m1] exI [of _ m2]) simp
  qed
  have c7: "\<exists>t m1 m2.
          flat_selectById 1 example_flat = Inr (Some t, m1) \<and>
          f_values (fheap m1 ! t) = [(''_filename'', Some ''a.mrc'')] \<and>
          flat_selectById 3 m1 = Inr (Some t, m2) \<and>
          f_values (fheap m2 ! t) = [(''_filename'', Some ''c.mrc'')]"
  proof -
    from flat_select_aliasing [OF ok, where ?r1.0 = "example_row 1" and ?r2.0 = "example_row 3",
        THEN conjunct2, THEN conjunct2, THEN conjunct2, THEN conjunct2, THEN conjunct2,
        THEN conjunct2, THEN conjunct1, rule_format, OF mem(2)]
    obtain t m1 m2 where
      "flat_selectById (fr_id (example_row 1)) example_flat = Inr (Some t, m1)"
      "fheap m1 ! t = row_object ?d (example_row 1)"
      "flat_selectById (fr_id (example_row 3)) m1 = Inr (Some t, m2)"
      "fheap m2 ! t = row_object ?d (example_row 3)"
      by (elim exE conjE) (rule that, assumption+)
    then show ?thesis unfolding rows(6,8) objs
      by (intro exI [of _ t] exI [of _ m1] exI [of _ m2]) simp
  qed
  have "7 \<notin> fr_id ` set (objects ?d)" by code_simp
  then have c8: "flat_selectById 7 example_flat = Inr (None, example_flat)"
    using flat_select_aliasing [OF ok, where i = 7,
        THEN conjunct2, THEN conjunct2, THEN conjunct2, THEN conjunct2, THEN conjunct2,
        THEN conjunct2, THEN conjunct2, THEN conjunct1]
    by blast
  have c9: "flat_selectBy [(''c00'', Some ''good'')] False None example_flat
      = Inl OperationalError"
    using flat_select_aliasing [OF ok, where args = "[(''c00'', Some ''good'')]"
        and e = OperationalError and iterate = False and f = None,
        THEN conjunct2, THEN conjunct2, THEN conjunct2, THEN conjunct2, THEN conjunct2,
        THEN conjunct2, THEN conjunct2, THEN conjunct2, THEN conjunct1, rule_format,
        OF rows(2)] .
  have c10: "flat_selectBy [] False None example_flat = Inl OperationalError"
    using flat_select_aliasing [OF ok, where iterate = False and f = None,
        THEN conjunct2, THEN conjunct2, THEN conjunct2, THEN conjunct2, THEN conjunct2,
        THEN conjunct2, THEN conjunct2, THEN conjunct2, THEN conjunct2] .
  show ?thesis using ok c1 c2 c2' c3 c3' c4 c5 c6 c7 c8 c9 c10 by (intro conjI)
qed

end
